theory Spec2Isabelle
  imports Main "HOL-Library.Word" "HOL-Library.Sublist"
begin

section \<open>The file system seen by find-duplicates.py\<close>

text \<open>
  The script reads the file system through \<open>os.walk\<close>, \<open>os.path.getsize\<close> and
  \<open>open(path, "rb")\<close>. A file has a content and a permission to read it:
  \<open>getsize\<close> needs the file to exist, \<open>open\<close> also needs the permission. A path that
  is mapped to \<open>None\<close> does not exist (deleted file, broken link).
\<close>

type_synonym byte = "8 word"
type_synonym path = string

record file_entry =
  content :: "byte list"
  readable :: bool

type_synonym filesystem = "path \<Rightarrow> file_entry option"

datatype error = OSError | TypeError | IndexError

definition getsize :: "filesystem \<Rightarrow> path \<Rightarrow> error + nat" where
  "getsize fs p = (case fs p of None \<Rightarrow> Inl OSError | Some f \<Rightarrow> Inr (length (content f)))"

definition open_rb :: "filesystem \<Rightarrow> path \<Rightarrow> error + byte list" where
  "open_rb fs p =
     (case fs p of
        None \<Rightarrow> Inl OSError
      | Some f \<Rightarrow> if readable f then Inr (content f) else Inl OSError)"

text \<open>
  The file system may change while the script runs. It is sampled once for each of the
  four places where the script touches files: the size stage, the partial-fingerprint
  stage, the full-fingerprint stage and the report. \<open>os_walk\<close> is the result of
  \<open>os.walk\<close> on a root: a list of triples (directory, sub-directories, file names).
\<close>

record world =
  os_walk :: "path \<Rightarrow> (path \<times> string list \<times> string list) list"
  fs_size :: filesystem
  fs_partial :: filesystem
  fs_full :: filesystem
  fs_report :: filesystem

section \<open>Enumeration\<close>

text \<open>\<open>os.path.join\<close> on two components (POSIX).\<close>

definition os_path_join :: "string \<Rightarrow> string \<Rightarrow> string" where
  "os_path_join a b =
     (if b \<noteq> [] \<and> hd b = CHR ''/'' then b
      else if a = [] \<or> last a = CHR ''/'' then a @ b
      else a @ ''/'' @ b)"

definition list_files :: "(path \<Rightarrow> (path \<times> string list \<times> string list) list) \<Rightarrow> path \<Rightarrow> path list" where
  "list_files walk p =
     concat (map (\<lambda>(root, dirs, filenames). map (os_path_join root) filenames) (walk p))"

section \<open>Size probe and fingerprints\<close>

text \<open>\<open>os.path.getsize\<close> raises nothing but \<open>OSError\<close>, which \<open>get_file_size\<close> turns into \<open>None\<close>.\<close>

definition get_file_size :: "filesystem \<Rightarrow> path \<Rightarrow> nat option" where
  "get_file_size fs file_path =
     (case getsize fs file_path of Inl e \<Rightarrow> None | Inr n \<Rightarrow> Some n)"

text \<open>
  \<open>hashlib.sha1\<close> is not part of the repository. Its object is modelled by the bytes fed
  to it so far (\<open>update(a); update(b)\<close> is \<open>update(a + b)\<close> by hashlib's contract), and
  the digest of a message is a parameter \<open>H\<close> of every function that hashes.
\<close>

type_synonym sha1 = "byte list"

definition sha1_new :: sha1 where
  "sha1_new = []"

definition sha1_update :: "sha1 \<Rightarrow> byte list \<Rightarrow> sha1" where
  "sha1_update st chunk = st @ chunk"

definition hexdigest :: "(byte list \<Rightarrow> 'h) \<Rightarrow> sha1 \<Rightarrow> 'h" where
  "hexdigest H st = H st"

definition hash_first_1k_bytes :: "(byte list \<Rightarrow> 'h) \<Rightarrow> filesystem \<Rightarrow> path \<Rightarrow> error + 'h" where
  "hash_first_1k_bytes H fs file_path =
     (case open_rb fs file_path of
        Inl e \<Rightarrow> Inl e
      | Inr f \<Rightarrow> Inr (hexdigest H (sha1_update sha1_new (take 1024 f))))"

text \<open>
  The loop \<open>for chunk in iter(lambda: f.read(n), b"")\<close>: the open file is the list of
  bytes not yet read; \<open>f.read(n)\<close> returns at most \<open>n\<close> of them and the loop stops at the
  first empty chunk.
\<close>

function read_chunks :: "nat \<Rightarrow> sha1 \<Rightarrow> byte list \<Rightarrow> sha1" where
  "read_chunks n st f =
     (if take n f = [] then st
      else read_chunks n (sha1_update st (take n f)) (drop n f))"
  by pat_completeness auto
termination
  by (relation "measure (\<lambda>(n, st, f). length f)") auto

declare read_chunks.simps [simp del]

definition hash_file_chunked :: "nat \<Rightarrow> (byte list \<Rightarrow> 'h) \<Rightarrow> filesystem \<Rightarrow> path \<Rightarrow> error + 'h" where
  "hash_file_chunked n H fs file_path =
     (case open_rb fs file_path of
        Inl e \<Rightarrow> Inl e
      | Inr f \<Rightarrow> Inr (hexdigest H (read_chunks n sha1_new f)))"

definition hash_file :: "(byte list \<Rightarrow> 'h) \<Rightarrow> filesystem \<Rightarrow> path \<Rightarrow> error + 'h" where
  "hash_file = hash_file_chunked 8192"

section \<open>The three stages\<close>

text \<open>
  A Python dict keeps its keys in insertion order: it is an association list.
  \<open>d.setdefault(k, []).append(p)\<close> appends \<open>p\<close> to the list of \<open>k\<close>, after adding
  \<open>k\<close> with an empty list at the end of the dict when it is not a key yet.
\<close>

fun setdefault_append :: "'k \<Rightarrow> 'p \<Rightarrow> ('k \<times> 'p list) list \<Rightarrow> ('k \<times> 'p list) list" where
  "setdefault_append k p [] = [(k, [p])]"
| "setdefault_append k p ((k', ps) # d) =
     (if k' = k then (k', ps @ [p]) # d else (k', ps) # setdefault_append k p d)"

text \<open>The first loop of \<open>filter_files_by_size\<close>; \<open>if file_size:\<close> is false on \<open>None\<close> and on \<open>0\<close>.\<close>

fun files_by_size :: "filesystem \<Rightarrow> path list \<Rightarrow> (nat \<times> path list) list \<Rightarrow> (nat \<times> path list) list" where
  "files_by_size fs [] d = d"
| "files_by_size fs (file_path # rest) d =
     (case get_file_size fs file_path of
        None \<Rightarrow> files_by_size fs rest d
      | Some file_size \<Rightarrow>
          if file_size \<noteq> 0 then files_by_size fs rest (setdefault_append file_size file_path d)
          else files_by_size fs rest d)"

text \<open>The second loop of the two filters: the groups with more than one path, concatenated.\<close>

fun extend_duplicates :: "('k \<times> 'p list) list \<Rightarrow> 'p list" where
  "extend_duplicates [] = []"
| "extend_duplicates ((k, paths) # d) =
     (if 1 < length paths then paths @ extend_duplicates d else extend_duplicates d)"

definition filter_files_by_size :: "filesystem \<Rightarrow> path list \<Rightarrow> path list" where
  "filter_files_by_size fs file_paths = extend_duplicates (files_by_size fs file_paths [])"

text \<open>
  The first loop of \<open>filter_files_by_first_1k_bytes\<close> and of \<open>group_files_by_full_hash\<close>,
  which differ in the hash function only. Neither catches the \<open>OSError\<close> of \<open>open\<close>:
  the loop ends at the first file that cannot be opened.
\<close>

fun files_by_hash :: "(path \<Rightarrow> error + 'h) \<Rightarrow> path list \<Rightarrow> ('h \<times> path list) list \<Rightarrow> error + ('h \<times> path list) list" where
  "files_by_hash hf [] d = Inr d"
| "files_by_hash hf (file_path # rest) d =
     (case hf file_path of
        Inl e \<Rightarrow> Inl e
      | Inr h \<Rightarrow> files_by_hash hf rest (setdefault_append h file_path d))"

definition filter_files_by_first_1k_bytes :: "(byte list \<Rightarrow> 'h) \<Rightarrow> filesystem \<Rightarrow> path list \<Rightarrow> error + path list" where
  "filter_files_by_first_1k_bytes H fs file_paths =
     (case files_by_hash (hash_first_1k_bytes H fs) file_paths [] of
        Inl e \<Rightarrow> Inl e
      | Inr d \<Rightarrow> Inr (extend_duplicates d))"

definition group_files_by_full_hash :: "(byte list \<Rightarrow> 'h) \<Rightarrow> filesystem \<Rightarrow> path list \<Rightarrow> error + path list list" where
  "group_files_by_full_hash H fs file_paths =
     (case files_by_hash (hash_file H fs) file_paths [] of
        Inl e \<Rightarrow> Inl e
      | Inr d \<Rightarrow> Inr (map snd (filter (\<lambda>(h, paths). 1 < length paths) d)))"

text \<open>The three calls of \<open>check_for_duplicates\<close> that turn the file list into the groups.\<close>

definition duplicate_groups :: "(byte list \<Rightarrow> 'h) \<Rightarrow> world \<Rightarrow> path list \<Rightarrow> error + path list list" where
  "duplicate_groups H w files =
     (case filter_files_by_first_1k_bytes H (fs_partial w) (filter_files_by_size (fs_size w) files) of
        Inl e \<Rightarrow> Inl e
      | Inr files' \<Rightarrow> group_files_by_full_hash H (fs_full w) files')"

section \<open>Report\<close>

text \<open>
  \<open>file_size_string\<close> computes with floating-point numbers (\<open>math.log\<close>, true division,
  the \<open>.2f\<close> format). These three operations are parameters: \<open>fmt_int n\<close> is
  \<open>f"{n:.2f}"\<close>, \<open>log_1000 n\<close> is \<open>int(math.log(n, 1000))\<close> and \<open>fmt_quot n e\<close> is
  \<open>f"{n / 1000 ** e:.2f}"\<close>. The argument is \<open>None\<close> when \<open>get_file_size\<close> failed;
  \<open>None < 1000\<close> raises \<open>TypeError\<close>.
\<close>

record float_ops =
  fmt_int :: "nat \<Rightarrow> string"
  log_1000 :: "nat \<Rightarrow> nat"
  fmt_quot :: "nat \<Rightarrow> nat \<Rightarrow> string"

definition sizes :: "string list" where
  "sizes = [''B'', ''KB'', ''MB'', ''GB'', ''TB'', ''PB'', ''EB'', ''ZB'', ''YB'']"

definition file_size_string :: "float_ops \<Rightarrow> nat option \<Rightarrow> error + string" where
  "file_size_string fl num_bytes =
     (case num_bytes of
        None \<Rightarrow> Inl TypeError
      | Some n \<Rightarrow>
          if n < 1000 then Inr (fmt_int fl n @ ''B'')
          else
            (let exponent = log_1000 fl n; val = fmt_quot fl n exponent
             in if exponent < length sizes then Inr (val @ sizes ! exponent)
                else Inl IndexError))"

text \<open>
  \<open>print_duplicates\<close> with the lines printed so far as an accumulator; what was printed
  before an exception stays printed. \<open>print("Size: ", s)\<close> separates its two arguments
  by a space.
\<close>

fun print_duplicates :: "float_ops \<Rightarrow> filesystem \<Rightarrow> path list list \<Rightarrow> string list \<Rightarrow> string list \<times> error option" where
  "print_duplicates fl fs [] out = (out, None)"
| "print_duplicates fl fs (files # rest) out =
     (case files of
        [] \<Rightarrow> (out @ [''Found duplicate files:''], Some IndexError)
      | first # others \<Rightarrow>
          (case file_size_string fl (get_file_size fs first) of
             Inl e \<Rightarrow> (out @ [''Found duplicate files:''], Some e)
           | Inr s \<Rightarrow>
               print_duplicates fl fs rest
                 (out @ [''Found duplicate files:''] @ [''Size:  '' @ s] @ files)))"

definition enumerate_files :: "world \<Rightarrow> path list \<Rightarrow> path list" where
  "enumerate_files w paths = concat (map (list_files (os_walk w)) paths)"

definition check_for_duplicates :: "(byte list \<Rightarrow> 'h) \<Rightarrow> float_ops \<Rightarrow> world \<Rightarrow> path list \<Rightarrow> string list \<times> error option" where
  "check_for_duplicates H fl w paths =
     (case duplicate_groups H w (enumerate_files w paths) of
        Inl e \<Rightarrow> ([], Some e)
      | Inr duplicates \<Rightarrow> print_duplicates fl (fs_report w) duplicates [])"

section \<open>Notions used to state and prove the properties\<close>

text \<open>
  Every stage groups a list by a key that a file may lack: \<open>group_by\<close> is the loop
  common to the three stages, \<open>size_key\<close> and \<open>hash_key\<close> are the keys, and
  \<open>survivors\<close> is the output of a filtering stage.
\<close>

fun group_by :: "('p \<Rightarrow> 'k option) \<Rightarrow> 'p list \<Rightarrow> ('k \<times> 'p list) list \<Rightarrow> ('k \<times> 'p list) list" where
  "group_by key [] d = d"
| "group_by key (p # ps) d =
     (case key p of None \<Rightarrow> group_by key ps d | Some k \<Rightarrow> group_by key ps (setdefault_append k p d))"

definition size_key :: "filesystem \<Rightarrow> path \<Rightarrow> nat option" where
  "size_key fs p = (case get_file_size fs p of None \<Rightarrow> None | Some n \<Rightarrow> if n \<noteq> 0 then Some n else None)"

definition hash_key :: "(path \<Rightarrow> error + 'h) \<Rightarrow> path \<Rightarrow> 'h option" where
  "hash_key hf p = (case hf p of Inl e \<Rightarrow> None | Inr h \<Rightarrow> Some h)"

definition survivors :: "('p \<Rightarrow> 'k option) \<Rightarrow> 'p list \<Rightarrow> 'p list" where
  "survivors key xs = extend_duplicates (group_by key xs [])"

definition size_survivors :: "world \<Rightarrow> path list \<Rightarrow> path list" where
  "size_survivors w files = survivors (size_key (fs_size w)) files"

definition partial_survivors :: "(byte list \<Rightarrow> 'h) \<Rightarrow> world \<Rightarrow> path list \<Rightarrow> path list" where
  "partial_survivors H w files =
     survivors (hash_key (hash_first_1k_bytes H (fs_partial w))) (size_survivors w files)"

text \<open>
  Concrete file systems and runs for the examples below. \<open>regular c\<close> is a file with
  content \<open>c\<close> that can be read; \<open>walk_d\<close> is a directory \<open>d\<close> with the two files \<open>a\<close>
  and \<open>b\<close> and no sub-directory; \<open>static_world fs\<close> is a run during which the file system
  stays \<open>fs\<close>.
\<close>

definition regular :: "byte list \<Rightarrow> file_entry" where
  "regular c = \<lparr>content = c, readable = True\<rparr>"

definition walk_d :: "path \<Rightarrow> (path \<times> string list \<times> string list) list" where
  "walk_d root = (if root = ''d'' then [(''d'', [], [''a'', ''b''])] else [])"

definition static_world :: "filesystem \<Rightarrow> world" where
  "static_world fs = \<lparr>os_walk = walk_d, fs_size = fs, fs_partial = fs, fs_full = fs, fs_report = fs\<rparr>"

definition two_copies :: filesystem where
  "two_copies = [''d/a'' \<mapsto> regular [104, 105], ''d/b'' \<mapsto> regular [104, 105]]"

definition one_left :: filesystem where
  "one_left = [''d/a'' \<mapsto> regular [104, 105]]"

definition no_permission :: filesystem where
  "no_permission = [''d/a'' \<mapsto> regular [104, 105],
     ''d/b'' \<mapsto> \<lparr>content = [119, 104], readable = False\<rparr>]"

definition deleted_world :: world where
  "deleted_world = \<lparr>os_walk = walk_d, fs_size = two_copies, fs_partial = one_left,
     fs_full = one_left, fs_report = one_left\<rparr>"

definition two_empty :: filesystem where
  "two_empty = [''d/a'' \<mapsto> regular [], ''d/b'' \<mapsto> regular []]"

definition empty_and_copies :: filesystem where
  "empty_and_copies = [''d/a'' \<mapsto> regular [], ''d/b'' \<mapsto> regular [],
     ''d/c'' \<mapsto> regular [1], ''d/e'' \<mapsto> regular [1]]"

text \<open>
  \<open>decimal_ops\<close> computes the three floating-point operations exactly, in decimal:
  \<open>dec\<close> writes a natural number, \<open>ilog_1000\<close> is the integer logarithm to base 1000
  and \<open>fixed2 n d\<close> writes \<open>n / d\<close> rounded to two decimals. It stands for Python's
  operations in the examples, on whose inputs Python gives the same texts and exponents.
\<close>

function dec :: "nat \<Rightarrow> string" where
  "dec n = (if n < 10 then [''0123456789'' ! n] else dec (n div 10) @ [''0123456789'' ! (n mod 10)])"
  by pat_completeness auto
termination
  by (relation "measure id") auto

declare dec.simps [simp del]

function ilog_1000 :: "nat \<Rightarrow> nat" where
  "ilog_1000 n = (if n < 1000 then 0 else Suc (ilog_1000 (n div 1000)))"
  by pat_completeness auto
termination
  by (relation "measure id") auto

declare ilog_1000.simps [simp del]

definition fixed2 :: "nat \<Rightarrow> nat \<Rightarrow> string" where
  "fixed2 n d =
     (let h = (200 * n + d) div (2 * d)
      in dec (h div 100) @ ''.'' @ dec (h div 10 mod 10) @ dec (h mod 10))"

definition decimal_ops :: float_ops where
  "decimal_ops = \<lparr>fmt_int = (\<lambda>n. dec n @ ''.00''), log_1000 = ilog_1000,
     fmt_quot = (\<lambda>n e. fixed2 n (1000 ^ e))\<rparr>"

definition gone_at_report :: world where
  "gone_at_report = \<lparr>os_walk = walk_d, fs_size = two_copies, fs_partial = two_copies,
     fs_full = two_copies, fs_report = Map.empty\<rparr>"

definition grown_copy :: filesystem where
  "grown_copy = [''d/a'' \<mapsto> regular [104, 105, 33], ''d/b'' \<mapsto> regular [104, 105]]"

definition grown_at_report :: world where
  "grown_at_report = \<lparr>os_walk = walk_d, fs_size = two_copies, fs_partial = two_copies,
     fs_full = two_copies, fs_report = grown_copy\<rparr>"

definition same_prefix :: filesystem where
  "same_prefix = [''d/a1'' \<mapsto> regular (replicate 1024 0), ''d/a2'' \<mapsto> regular (replicate 1024 0),
     ''d/b1'' \<mapsto> regular (replicate 1025 0), ''d/b2'' \<mapsto> regular (replicate 1025 0)]"

definition one_file :: filesystem where
  "one_file = [''p'' \<mapsto> regular [1]]"

definition before_rewrite :: filesystem where
  "before_rewrite = [''d/a'' \<mapsto> regular [1], ''d/b'' \<mapsto> regular [2, 2],
     ''d/c'' \<mapsto> regular [1], ''d/e'' \<mapsto> regular [2, 2]]"

definition after_rewrite :: filesystem where
  "after_rewrite = [''d/a'' \<mapsto> regular [2, 2], ''d/b'' \<mapsto> regular [2, 2],
     ''d/c'' \<mapsto> regular [2, 2], ''d/e'' \<mapsto> regular [2, 2]]"

definition rewritten_world :: world where
  "rewritten_world = \<lparr>os_walk = walk_d, fs_size = before_rewrite, fs_partial = after_rewrite,
     fs_full = after_rewrite, fs_report = after_rewrite\<rparr>"

section \<open>The full fingerprint does not depend on the chunk size\<close>

lemma read_chunks_append: "0 < n \<Longrightarrow> read_chunks n st f = st @ f"
proof (induction n st f rule: read_chunks.induct)
  case (1 n st f)
  show ?case
  proof (cases "take n f = []")
    case True
    with "1.prems" have "f = []" by simp
    with True show ?thesis by (simp add: read_chunks.simps)
  next
    case False
    with "1.IH" "1.prems" have "read_chunks n (sha1_update st (take n f)) (drop n f) = sha1_update st (take n f) @ drop n f"
      by simp
    with False show ?thesis
      by (subst read_chunks.simps) (simp add: sha1_update_def)
  qed
qed

text \<open>
  Claim C6. The full fingerprint of a file is the digest of its complete content,
  whatever the chunk size: reading in chunks of 8192 bytes, or of any other positive
  size \<open>n\<close>, feeds the digest the same bytes as one pass over the whole file, and
  \<open>hash_file\<close> returns the digest of the content of every file that can be opened.
\<close>

theorem full_fingerprint_chunk_independent:
  "hexdigest H (read_chunks 8192 sha1_new f) = H f \<and>
   (0 < n \<longrightarrow> hexdigest H (read_chunks n sha1_new f) = H f) \<and>
   (0 < n \<longrightarrow> hash_file_chunked n H fs p = hash_file H fs p) \<and>
   hash_file H fs p = (case open_rb fs p of Inl e \<Rightarrow> Inl e | Inr c \<Rightarrow> Inr (H c))"
  by (simp add: read_chunks_append hexdigest_def sha1_new_def hash_file_def
      hash_file_chunked_def split: sum.splits)

theorem full_fingerprint_chunk_independent_witness:
  "(0::nat) < 2 \<and>
   hexdigest (\<lambda>bs. bs) (read_chunks 2 sha1_new [1, 2, 3]) = [1, 2, 3] \<and>
   hash_file_chunked 2 (\<lambda>bs. bs) [''a'' \<mapsto> \<lparr>content = [1, 2, 3], readable = True\<rparr>] ''a''
     = hash_file (\<lambda>bs. bs) [''a'' \<mapsto> \<lparr>content = [1, 2, 3], readable = True\<rparr>] ''a''"
  using full_fingerprint_chunk_independent
    [of "\<lambda>bs. bs" "[1, 2, 3]" 2 "[''a'' \<mapsto> \<lparr>content = [1, 2, 3], readable = True\<rparr>]" "''a''"]
  by simp

section \<open>Grouping\<close>

subsection \<open>The dict built by a stage\<close>

text \<open>
  The keys of the dict stay distinct, and the list of a key is the sub-list of the input
  with that key, in the order of the input.
\<close>

lemma map_of_setdefault_append:
  "map_of (setdefault_append k p d) =
     (map_of d)(k \<mapsto> (case map_of d k of None \<Rightarrow> [p] | Some ps \<Rightarrow> ps @ [p]))"
  by (induction d) (auto simp: fun_eq_iff)

lemma keys_setdefault_append:
  "map fst (setdefault_append k p d) =
     (if k \<in> fst ` set d then map fst d else map fst d @ [k])"
  by (induction d) force+

lemma distinct_setdefault_append:
  "distinct (map fst d) \<Longrightarrow> distinct (map fst (setdefault_append k p d))"
  by (simp add: keys_setdefault_append)

lemma distinct_group_by:
  "distinct (map fst d) \<Longrightarrow> distinct (map fst (group_by key xs d))"
  by (induction xs arbitrary: d) (auto simp: distinct_setdefault_append split: option.splits)

lemma map_of_group_by:
  "map_of (group_by key xs d) k =
     (case map_of d k of
        None \<Rightarrow> if filter (\<lambda>p. key p = Some k) xs = [] then None
                else Some (filter (\<lambda>p. key p = Some k) xs)
      | Some ps \<Rightarrow> Some (ps @ filter (\<lambda>p. key p = Some k) xs))"
proof (induction xs arbitrary: d)
  case Nil
  then show ?case by (simp split: option.splits)
next
  case (Cons x xs)
  show ?case
  proof (cases "key x")
    case None
    then show ?thesis using Cons.IH [of d] by (simp split: option.splits)
  next
    case (Some k')
    then show ?thesis
      using Cons.IH [of "setdefault_append k' x d"]
      by (auto simp: map_of_setdefault_append split: option.splits)
  qed
qed

lemma group_by_member:
  "(k, ps) \<in> set (group_by key xs []) \<longleftrightarrow>
     ps = filter (\<lambda>p. key p = Some k) xs \<and> ps \<noteq> []"
proof -
  have "distinct (map fst (group_by key xs []))"
    by (rule distinct_group_by) simp
  then have "(k, ps) \<in> set (group_by key xs []) \<longleftrightarrow> map_of (group_by key xs []) k = Some ps"
    by simp
  then show ?thesis
    by (auto simp: map_of_group_by)
qed

subsection \<open>What a stage keeps\<close>

text \<open>
  For a property \<open>P\<close> that only files of one key \<open>k0\<close> have, a filtering stage keeps
  either all the entries with \<open>P\<close>, in their order, or none of them.
\<close>

lemma extend_duplicates_concat:
  "extend_duplicates d = concat (map snd (filter (\<lambda>(k, ps). 1 < length ps) d))"
  by (induction d rule: extend_duplicates.induct) auto

lemma filter_extend_duplicates:
  "distinct (map fst d) \<Longrightarrow> (\<forall>(k, ps) \<in> set d. k \<noteq> k0 \<longrightarrow> filter P ps = []) \<Longrightarrow>
   filter P (extend_duplicates d) =
     (case map_of d k0 of None \<Rightarrow> [] | Some ps \<Rightarrow> if 1 < length ps then filter P ps else [])"
proof (induction d rule: extend_duplicates.induct)
  case 1
  then show ?case by simp
next
  case (2 k paths d)
  show ?case
  proof (cases "k = k0")
    case True
    with "2.prems" have "map_of d k0 = None"
      by (simp add: map_of_eq_None_iff)
    have "filter P (extend_duplicates d) = []"
      using "2.prems" True
      by (force simp: extend_duplicates_concat filter_concat filter_empty_conv)
    then show ?thesis using True by simp
  next
    case False
    with "2.prems" have "filter P paths = []" by simp
    moreover have "filter P (extend_duplicates d) =
       (case map_of d k0 of None \<Rightarrow> [] | Some ps \<Rightarrow> if 1 < length ps then filter P ps else [])"
      using "2.IH" "2.prems" by (cases "1 < length paths") auto
    ultimately show ?thesis using False by simp
  qed
qed

lemma filter_stage:
  assumes "\<forall>p \<in> set xs. P p \<longrightarrow> key p = Some k0"
  shows "filter P (extend_duplicates (group_by key xs [])) =
     (if 1 < length (filter (\<lambda>q. key q = Some k0) xs) then filter P xs else [])"
proof -
  let ?d = "group_by key xs []"
  have d: "distinct (map fst ?d)" by (rule distinct_group_by) simp
  have other: "\<forall>(k, ps) \<in> set ?d. k \<noteq> k0 \<longrightarrow> filter P ps = []"
    using assms by (auto simp: group_by_member filter_empty_conv)
  have same: "filter P (filter (\<lambda>q. key q = Some k0) xs) = filter P xs"
    using assms by (auto intro: filter_cong)
  show ?thesis
    unfolding filter_extend_duplicates [OF d other]
    using same by (auto simp: map_of_group_by)
qed

subsection \<open>The loops of the source\<close>

lemma files_by_size_group_by: "files_by_size fs xs d = group_by (size_key fs) xs d"
  by (induction xs arbitrary: d) (auto simp: size_key_def split: option.splits)

lemma files_by_hash_Inr:
  "files_by_hash hf xs d = Inr d' \<Longrightarrow>
     d' = group_by (hash_key hf) xs d \<and> (\<forall>p \<in> set xs. \<exists>h. hf p = Inr h)"
  by (induction xs arbitrary: d) (auto simp: hash_key_def split: sum.splits)

lemma files_by_hash_Inl:
  "files_by_hash hf xs d = Inl e \<Longrightarrow> \<exists>p \<in> set xs. hf p = Inl e"
  by (induction xs arbitrary: d) (auto split: sum.splits)

lemma files_by_hash_total:
  "\<forall>p \<in> set xs. \<exists>h. hf p = Inr h \<Longrightarrow>
     files_by_hash hf xs d = Inr (group_by (hash_key hf) xs d)"
  by (induction xs arbitrary: d) (auto simp: hash_key_def split: sum.splits)

lemma filter_files_by_size_survivors:
  "filter_files_by_size fs xs = survivors (size_key fs) xs"
  by (simp add: filter_files_by_size_def survivors_def files_by_size_group_by)

lemma filter_files_by_first_1k_bytes_Inr:
  "filter_files_by_first_1k_bytes H fs xs = Inr out \<Longrightarrow>
     out = survivors (hash_key (hash_first_1k_bytes H fs)) xs \<and>
     (\<forall>p \<in> set xs. \<exists>h. hash_first_1k_bytes H fs p = Inr h)"
  by (auto simp: filter_files_by_first_1k_bytes_def survivors_def
      dest: files_by_hash_Inr split: sum.splits)

lemma group_files_by_full_hash_Inr:
  "group_files_by_full_hash H fs xs = Inr groups \<Longrightarrow>
     groups = map snd (filter (\<lambda>(h, paths). 1 < length paths) (group_by (hash_key (hash_file H fs)) xs [])) \<and>
     (\<forall>p \<in> set xs. \<exists>h. hash_file H fs p = Inr h)"
  by (auto simp: group_files_by_full_hash_def dest: files_by_hash_Inr split: sum.splits)

lemma full_hash_group_iff:
  "group_files_by_full_hash H fs xs = Inr groups \<Longrightarrow>
     g \<in> set groups \<longleftrightarrow>
       1 < length g \<and> (\<exists>h. g = filter (\<lambda>p. hash_key (hash_file H fs) p = Some h) xs)"
proof -
  assume "group_files_by_full_hash H fs xs = Inr groups"
  then have "groups = map snd (filter (\<lambda>(h, paths). 1 < length paths) (group_by (hash_key (hash_file H fs)) xs []))"
    by (rule group_files_by_full_hash_Inr [THEN conjunct1])
  then have "g \<in> set groups \<longleftrightarrow>
      (\<exists>h. (h, g) \<in> set (group_by (hash_key (hash_file H fs)) xs []) \<and> 1 < length g)"
    by force
  also have "\<dots> \<longleftrightarrow> 1 < length g \<and> (\<exists>h. g = filter (\<lambda>p. hash_key (hash_file H fs) p = Some h) xs)"
    unfolding group_by_member by auto
  finally show ?thesis .
qed

subsection \<open>Properties of the output of a stage\<close>

lemma survivors_member:
  "p \<in> set (survivors key xs) \<longleftrightarrow>
     p \<in> set xs \<and> (\<exists>k. key p = Some k \<and> 1 < length (filter (\<lambda>q. key q = Some k) xs))"
  by (auto simp: survivors_def extend_duplicates_concat group_by_member)

lemma survivors_subset: "set (survivors key xs) \<subseteq> set xs"
  by (auto simp: survivors_member)

lemma survivors_keep:
  assumes "\<forall>x \<in> set xs. P x \<longrightarrow> key x = Some k0" and "1 < length (filter P xs)"
  shows "filter P (survivors key xs) = filter P xs"
proof -
  have "filter P xs = filter P (filter (\<lambda>q. key q = Some k0) xs)"
    using assms(1) by (auto intro: filter_cong)
  then have "length (filter P xs) \<le> length (filter (\<lambda>q. key q = Some k0) xs)"
    by (metis length_filter_le)
  with assms(2) have "1 < length (filter (\<lambda>q. key q = Some k0) xs)" by simp
  then show ?thesis
    using filter_stage [OF assms(1)] by (simp add: survivors_def)
qed

lemma survivors_same_key:
  assumes "p \<in> set (survivors key xs)" and "key p = Some k"
  shows "filter (\<lambda>q. key q = Some k) (survivors key xs) = filter (\<lambda>q. key q = Some k) xs"
    and "1 < length (filter (\<lambda>q. key q = Some k) xs)"
proof -
  show big: "1 < length (filter (\<lambda>q. key q = Some k) xs)"
    using assms by (auto simp: survivors_member)
  show "filter (\<lambda>q. key q = Some k) (survivors key xs) = filter (\<lambda>q. key q = Some k) xs"
    by (rule survivors_keep [where ?k0.0 = k]) (use big in auto)
qed

lemma distinct_filter_eq:
  "distinct xs \<longleftrightarrow> (\<forall>x. length (filter (\<lambda>y. y = x) xs) \<le> 1)"
proof (induction xs)
  case Nil
  then show ?case by simp
next
  case (Cons a xs)
  have mem: "a \<in> set xs \<longleftrightarrow> 0 < length (filter (\<lambda>y. y = a) xs)"
    by (simp add: filter_empty_conv)
  show ?case
  proof
    assume d: "distinct (a # xs)"
    then have "length (filter (\<lambda>y. y = a) xs) = 0" using mem by simp
    moreover have "\<forall>x. length (filter (\<lambda>y. y = x) xs) \<le> 1" using d Cons.IH by simp
    ultimately show "\<forall>x. length (filter (\<lambda>y. y = x) (a # xs)) \<le> 1" by simp
  next
    assume r: "\<forall>x. length (filter (\<lambda>y. y = x) (a # xs)) \<le> 1"
    have "length (filter (\<lambda>y. y = x) xs) \<le> 1" for x
      using r [rule_format, of x] by (simp split: if_splits)
    then have "distinct xs" using Cons.IH by simp
    moreover have "a \<notin> set xs" using r [rule_format, of a] mem by simp
    ultimately show "distinct (a # xs)" by simp
  qed
qed

lemma distinct_survivors: "distinct xs \<Longrightarrow> distinct (survivors key xs)"
proof -
  assume d: "distinct xs"
  have "length (filter (\<lambda>y. y = x) (survivors key xs)) \<le> 1" for x
  proof (cases "key x")
    case None
    then have "x \<notin> set (survivors key xs)" by (simp add: survivors_member)
    then have "filter (\<lambda>y. y = x) (survivors key xs) = []" by (auto simp: filter_empty_conv)
    then show ?thesis by simp
  next
    case (Some k)
    then have "\<forall>y \<in> set xs. y = x \<longrightarrow> key y = Some k" by simp
    from filter_stage [OF this] d show ?thesis
      by (auto simp: survivors_def distinct_filter_eq)
  qed
  then show ?thesis by (simp add: distinct_filter_eq)
qed

lemma other_member:
  assumes "distinct xs" and "1 < length xs" and "p \<in> set xs"
  shows "\<exists>q \<in> set xs. q \<noteq> p"
proof (rule ccontr)
  assume "\<not> (\<exists>q \<in> set xs. q \<noteq> p)"
  then have "set xs \<subseteq> {p}" by auto
  then have "card (set xs) \<le> card {p}" by (rule card_mono [rotated]) simp
  with assms show False by (simp add: distinct_card)
qed

subsection \<open>The three stages in a row\<close>

lemma duplicate_groups_Inr:
  assumes "duplicate_groups H w files = Inr groups"
  shows "group_files_by_full_hash H (fs_full w) (partial_survivors H w files) = Inr groups"
    and "\<forall>p \<in> set (size_survivors w files). \<exists>h. hash_first_1k_bytes H (fs_partial w) p = Inr h"
    and "\<forall>p \<in> set (partial_survivors H w files). \<exists>h. hash_file H (fs_full w) p = Inr h"
proof -
  from assms obtain out where
    out: "filter_files_by_first_1k_bytes H (fs_partial w) (filter_files_by_size (fs_size w) files) = Inr out"
    and full: "group_files_by_full_hash H (fs_full w) out = Inr groups"
    by (auto simp: duplicate_groups_def split: sum.splits)
  from filter_files_by_first_1k_bytes_Inr [OF out]
  have eq: "out = partial_survivors H w files"
    and rd: "\<forall>p \<in> set (size_survivors w files). \<exists>h. hash_first_1k_bytes H (fs_partial w) p = Inr h"
    by (simp_all add: partial_survivors_def size_survivors_def filter_files_by_size_survivors)
  show "group_files_by_full_hash H (fs_full w) (partial_survivors H w files) = Inr groups"
    using full eq by simp
  show "\<forall>p \<in> set (size_survivors w files). \<exists>h. hash_first_1k_bytes H (fs_partial w) p = Inr h"
    by (rule rd)
  show "\<forall>p \<in> set (partial_survivors H w files). \<exists>h. hash_file H (fs_full w) p = Inr h"
    using group_files_by_full_hash_Inr [OF full] eq by simp
qed

lemma hash_key_Some: "hash_key hf q = Some h \<longleftrightarrow> hf q = Inr h"
  by (auto simp: hash_key_def split: sum.splits)

lemma size_key_Some: "size_key fs q = Some k \<longleftrightarrow> get_file_size fs q = Some k \<and> k \<noteq> 0"
  by (auto simp: size_key_def split: option.splits)

lemma filter_nonempty_member:
  "1 < length (filter P xs) \<Longrightarrow> \<exists>x \<in> set xs. P x"
  by (cases "filter P xs") (auto simp: filter_eq_Cons_iff)

lemma pipeline_keep:
  assumes run: "duplicate_groups H w files = Inr groups"
    and k1: "\<forall>x \<in> set files. P x \<longrightarrow> get_file_size (fs_size w) x = Some n \<and> n \<noteq> 0"
    and k2: "\<forall>x \<in> set files. P x \<longrightarrow>
               hash_first_1k_bytes H (fs_partial w) x = hash_first_1k_bytes H (fs_partial w) a"
    and k3: "\<forall>x \<in> set files. P x \<longrightarrow> hash_file H (fs_full w) x = hash_file H (fs_full w) a"
    and big: "1 < length (filter P files)"
  shows "\<exists>g \<in> set groups. filter P g = filter P files"
proof -
  let ?out1 = "size_survivors w files" and ?out2 = "partial_survivors H w files"
  let ?hf2 = "hash_first_1k_bytes H (fs_partial w)" and ?hf3 = "hash_file H (fs_full w)"
  note run' = duplicate_groups_Inr [OF run]
  have sub1: "set ?out1 \<subseteq> set files" by (simp add: size_survivors_def survivors_subset)
  have sub2: "set ?out2 \<subseteq> set ?out1" by (simp add: partial_survivors_def survivors_subset)
  have s1: "filter P ?out1 = filter P files"
    unfolding size_survivors_def
    by (rule survivors_keep [where ?k0.0 = n]) (use k1 big in \<open>auto simp: size_key_Some\<close>)
  from big s1 obtain x where x: "x \<in> set ?out1" "P x"
    using filter_nonempty_member [of P ?out1] by auto
  with run'(2) obtain h2 where "?hf2 x = Inr h2" by auto
  with k2 x sub1 have a2: "?hf2 a = Inr h2" by auto
  have s2: "filter P ?out2 = filter P ?out1"
    unfolding partial_survivors_def
    by (rule survivors_keep [where ?k0.0 = h2])
      (use k2 a2 sub1 big s1 in \<open>auto simp: hash_key_Some\<close>)
  from big s1 s2 obtain y where y: "y \<in> set ?out2" "P y"
    using filter_nonempty_member [of P ?out2] by auto
  with run'(3) obtain h3 where "?hf3 y = Inr h3" by auto
  with k3 y sub1 sub2 have a3: "?hf3 a = Inr h3" by auto
  let ?g = "filter (\<lambda>p. hash_key ?hf3 p = Some h3) ?out2"
  have fg: "filter P ?g = filter P ?out2"
    unfolding filter_filter
    by (rule filter_cong [OF refl]) (use k3 a3 sub1 sub2 in \<open>auto simp: hash_key_Some\<close>)
  have "length (filter P ?g) \<le> length ?g" by (rule length_filter_le)
  with fg s2 s1 big have "1 < length ?g" by simp
  then have "?g \<in> set groups"
    using full_hash_group_iff [OF run'(1)] by blast
  moreover have "filter P ?g = filter P files" using fg s2 s1 by simp
  ultimately show ?thesis by (rule bexI [rotated])
qed

lemma two_members:
  assumes "a \<noteq> b" "a \<in> set xs" "b \<in> set xs"
  shows "1 < length (filter (\<lambda>x. x = a \<or> x = b) xs)"
proof -
  have "{a, b} \<subseteq> set (filter (\<lambda>x. x = a \<or> x = b) xs)" using assms by auto
  then have "card {a, b} \<le> card (set (filter (\<lambda>x. x = a \<or> x = b) xs))"
    by (rule card_mono [rotated]) simp
  also have "\<dots> \<le> length (filter (\<lambda>x. x = a \<or> x = b) xs)" by (rule card_length)
  finally show ?thesis using assms(1) by simp
qed

lemma if_eq_cases: "x = (if b then y else z) \<Longrightarrow> x = y \<or> x = z"
  by (cases b) simp_all

lemma group_is_filter:
  assumes run: "duplicate_groups H w files = Inr groups"
    and g: "g \<in> set groups"
    and same: "\<forall>p \<in> set g. \<forall>q \<in> set g.
        get_file_size (fs_size w) p = get_file_size (fs_size w) q \<and>
        hash_first_1k_bytes H (fs_partial w) p = hash_first_1k_bytes H (fs_partial w) q"
  shows "subseq g files"
proof -
  let ?out1 = "size_survivors w files" and ?out2 = "partial_survivors H w files"
  let ?k1 = "size_key (fs_size w)"
  let ?k2 = "hash_key (hash_first_1k_bytes H (fs_partial w))"
  let ?k3 = "hash_key (hash_file H (fs_full w))"
  note run' = duplicate_groups_Inr [OF run]
  from g have "1 < length g \<and> (\<exists>h. g = filter (\<lambda>p. ?k3 p = Some h) ?out2)"
    by (rule full_hash_group_iff [OF run'(1), THEN iffD1])
  then obtain h3 where
    len: "1 < length g" and gdef: "g = filter (\<lambda>p. ?k3 p = Some h3) ?out2"
    by (elim conjE exE)
  from len obtain p0 where p0: "p0 \<in> set g" by (cases g) auto
  then have p0_2: "p0 \<in> set ?out2" using gdef by simp
  then obtain h2 where h2: "?k2 p0 = Some h2" and p0_1: "p0 \<in> set ?out1"
    by (auto simp: partial_survivors_def survivors_member)
  then obtain n where n: "?k1 p0 = Some n"
    by (auto simp: size_survivors_def survivors_member)
  have keys: "?k1 p = Some n \<and> ?k2 p = Some h2" if "p \<in> set g" for p
  proof -
    from same [rule_format, OF that p0]
    have "get_file_size (fs_size w) p = get_file_size (fs_size w) p0"
      and "hash_first_1k_bytes H (fs_partial w) p = hash_first_1k_bytes H (fs_partial w) p0"
      by (rule conjunct1, rule conjunct2)
    with n h2 show ?thesis by (simp add: size_key_def hash_key_def)
  qed
  let ?P = "\<lambda>p. ?k3 p = Some h3 \<and> ?k2 p = Some h2 \<and> ?k1 p = Some n"
  have "filter (\<lambda>p. ?k3 p = Some h3) ?out2 = filter ?P ?out2"
  proof (rule filter_cong [OF refl])
    fix x assume xin: "x \<in> set ?out2"
    show "(?k3 x = Some h3) = ?P x"
    proof
      assume a: "?k3 x = Some h3"
      have "x \<in> set g" by (subst gdef) (simp add: a xin)
      from keys [OF this] a show "?P x" by simp
    next
      assume "?P x" then show "?k3 x = Some h3" by simp
    qed
  qed
  then have g2: "g = filter ?P ?out2" by (rule trans [OF gdef])
  from len have ne: "g \<noteq> []" by auto
  have "\<forall>p \<in> set ?out1. ?P p \<longrightarrow> ?k2 p = Some h2" by simp
  then have "filter ?P (extend_duplicates (group_by ?k2 ?out1 [])) =
      (if 1 < length (filter (\<lambda>q. ?k2 q = Some h2) ?out1) then filter ?P ?out1 else [])"
    by (rule filter_stage)
  then have e2: "filter ?P ?out2 = filter ?P ?out1 \<or> filter ?P ?out2 = []"
    unfolding partial_survivors_def survivors_def by (rule if_eq_cases)
  have g1: "g = filter ?P ?out1"
    using e2 g2 ne by metis
  have "\<forall>p \<in> set files. ?P p \<longrightarrow> ?k1 p = Some n" by simp
  then have "filter ?P (extend_duplicates (group_by ?k1 files [])) =
      (if 1 < length (filter (\<lambda>q. ?k1 q = Some n) files) then filter ?P files else [])"
    by (rule filter_stage)
  then have e1: "filter ?P ?out1 = filter ?P files \<or> filter ?P ?out1 = []"
    unfolding size_survivors_def survivors_def by (rule if_eq_cases)
  have "g = filter ?P files"
    using e1 g1 ne by metis
  then show ?thesis by (simp only: subseq_filter_left)
qed

subsection \<open>Fingerprints of files that can be opened\<close>

lemma hash_file_open:
  "hash_file H fs p = (case open_rb fs p of Inl e \<Rightarrow> Inl e | Inr c \<Rightarrow> Inr (H c))"
  by (simp add: read_chunks_append hexdigest_def sha1_new_def hash_file_def
      hash_file_chunked_def split: sum.splits)

lemma hash_first_1k_bytes_open:
  "hash_first_1k_bytes H fs p =
     (case open_rb fs p of Inl e \<Rightarrow> Inl e | Inr c \<Rightarrow> Inr (H (take 1024 c)))"
  by (simp add: hash_first_1k_bytes_def hexdigest_def sha1_new_def sha1_update_def
      split: sum.splits)

lemma get_file_size_open: "open_rb fs p = Inr c \<Longrightarrow> get_file_size fs p = Some (length c)"
  by (auto simp: open_rb_def get_file_size_def getsize_def split: option.splits if_splits)

lemmas run_defs =
  check_for_duplicates_def enumerate_files_def list_files_def os_path_join_def
  duplicate_groups_def filter_files_by_size_def filter_files_by_first_1k_bytes_def
  group_files_by_full_hash_def hash_first_1k_bytes_open hash_file_open open_rb_def
  get_file_size_def getsize_def regular_def static_world_def walk_d_def

section \<open>Unreadable files\<close>

text \<open>
  The three stages return their groups when every listed file can be opened at the two
  fingerprint stages.
\<close>

lemma duplicate_groups_returns:
  assumes "\<forall>p \<in> set files. \<exists>c. open_rb (fs_partial w) p = Inr c"
    and "\<forall>p \<in> set files. \<exists>c. open_rb (fs_full w) p = Inr c"
  shows "\<exists>groups. duplicate_groups H w files = Inr groups"
proof -
  let ?out1 = "filter_files_by_size (fs_size w) files"
  let ?d2 = "group_by (hash_key (hash_first_1k_bytes H (fs_partial w))) ?out1 []"
  have sub1: "set ?out1 \<subseteq> set files"
    by (simp add: filter_files_by_size_survivors survivors_subset)
  have "\<forall>p \<in> set ?out1. \<exists>h. hash_first_1k_bytes H (fs_partial w) p = Inr h"
  proof
    fix p assume "p \<in> set ?out1"
    with sub1 assms(1) obtain c where "open_rb (fs_partial w) p = Inr c" by blast
    then show "\<exists>h. hash_first_1k_bytes H (fs_partial w) p = Inr h"
      by (simp add: hash_first_1k_bytes_open)
  qed
  then have 2: "files_by_hash (hash_first_1k_bytes H (fs_partial w)) ?out1 [] = Inr ?d2"
    by (rule files_by_hash_total)
  let ?out2 = "extend_duplicates ?d2"
  have "set ?out2 \<subseteq> set ?out1"
    using survivors_subset [of "hash_key (hash_first_1k_bytes H (fs_partial w))" ?out1]
    by (simp add: survivors_def)
  then have sub2: "set ?out2 \<subseteq> set files" using sub1 by (rule subset_trans)
  have "\<forall>p \<in> set ?out2. \<exists>h. hash_file H (fs_full w) p = Inr h"
  proof
    fix p assume "p \<in> set ?out2"
    with sub2 assms(2) obtain c where "open_rb (fs_full w) p = Inr c" by blast
    then show "\<exists>h. hash_file H (fs_full w) p = Inr h"
      by (simp add: hash_file_open)
  qed
  then have 3: "files_by_hash (hash_file H (fs_full w)) ?out2 []
      = Inr (group_by (hash_key (hash_file H (fs_full w))) ?out2 [])"
    by (rule files_by_hash_total)
  show ?thesis
    by (simp add: duplicate_groups_def filter_files_by_first_1k_bytes_def
        group_files_by_full_hash_def 2 3)
qed

text \<open>
  \<open>OSError\<close> is the only exception of the three stages, and one file of the size-stage
  output that cannot be opened at the partial-fingerprint stage is enough to end the run.
\<close>

lemma open_rb_error: "open_rb fs p = Inl e \<Longrightarrow> e = OSError"
  by (auto simp: open_rb_def split: option.splits if_splits)

lemma duplicate_groups_error:
  assumes "duplicate_groups H w files = Inl e"
  shows "e = OSError"
proof -
  from assms consider
    (partial) "files_by_hash (hash_first_1k_bytes H (fs_partial w)) (filter_files_by_size (fs_size w) files) [] = Inl e"
    | (full) out where "files_by_hash (hash_file H (fs_full w)) out [] = Inl e"
    by (auto simp: duplicate_groups_def filter_files_by_first_1k_bytes_def
        group_files_by_full_hash_def split: sum.splits)
  then show ?thesis
  proof cases
    case partial
    then obtain p where "hash_first_1k_bytes H (fs_partial w) p = Inl e"
      by (auto dest: files_by_hash_Inl)
    then have "open_rb (fs_partial w) p = Inl e"
      by (simp add: hash_first_1k_bytes_open split: sum.splits)
    then show ?thesis by (rule open_rb_error)
  next
    case full
    then obtain p where "hash_file H (fs_full w) p = Inl e"
      by (auto dest: files_by_hash_Inl)
    then have "open_rb (fs_full w) p = Inl e"
      by (simp add: hash_file_open split: sum.splits)
    then show ?thesis by (rule open_rb_error)
  qed
qed

lemma unreadable_survivor_aborts:
  assumes "p \<in> set (filter_files_by_size (fs_size w) files)"
    and "open_rb (fs_partial w) p = Inl e"
  shows "duplicate_groups H w files = Inl OSError"
proof (cases "duplicate_groups H w files")
  case (Inl e')
  then show ?thesis by (simp add: duplicate_groups_error)
next
  case (Inr groups)
  from assms(1) have "p \<in> set (size_survivors w files)"
    by (simp add: filter_files_by_size_survivors size_survivors_def)
  with duplicate_groups_Inr(2) [OF Inr] obtain h where
    "hash_first_1k_bytes H (fs_partial w) p = Inr h" by blast
  with assms(2) show ?thesis by (simp add: hash_first_1k_bytes_open)
qed

text \<open>
  Claim C1 says that a file which becomes unreadable at any stage is dropped and the run
  goes on. \<open>get_file_size\<close> does catch \<open>OSError\<close>, but neither
  \<open>hash_first_1k_bytes\<close> nor \<open>hash_file\<close> does. Here the directory \<open>d\<close>
  holds two copies \<open>a\<close> and \<open>b\<close>; both pass the size stage, \<open>b\<close> is deleted
  before the partial-fingerprint stage, and the run ends with \<open>OSError\<close>, whatever
  the digest and the number formatting are, having printed nothing.
\<close>

theorem deleted_file_aborts_run:
  "filter_files_by_size (fs_size deleted_world) (enumerate_files deleted_world [''d'']) = [''d/a'', ''d/b''] \<and>
   open_rb (fs_partial deleted_world) ''d/b'' = Inl OSError \<and>
   duplicate_groups H deleted_world (enumerate_files deleted_world [''d'']) = Inl OSError \<and>
   check_for_duplicates H fl deleted_world [''d''] = ([], Some OSError)"
  by (simp add: run_defs deleted_world_def two_copies_def one_left_def)

text \<open>
  The same happens with no change of the file system at all: \<open>os.path.getsize\<close> works
  on a file that the user may not read, and \<open>open\<close> fails on it.
\<close>

lemma unreadable_file_aborts_run:
  "get_file_size no_permission ''d/b'' = Some 2 \<and>
   check_for_duplicates H fl (static_world no_permission) [''d''] = ([], Some OSError)"
  by (simp add: run_defs no_permission_def)

section \<open>Identical files are grouped\<close>

text \<open>
  Claim C2, as stated, includes two empty files. Two readable empty files with the same
  (empty) content are not reported: \<open>if file_size:\<close> drops both at the size stage.
\<close>

theorem empty_files_not_grouped:
  "open_rb two_empty ''d/a'' = Inr [] \<and> open_rb two_empty ''d/b'' = Inr [] \<and>
   duplicate_groups (\<lambda>bs. bs) (static_world two_empty) [''d/a'', ''d/b''] = Inr []"
  by (simp add: run_defs two_empty_def)

text \<open>
  Claim C2, amended: two different paths of the file list whose files can be opened at
  every stage, with the same content at each stage and a non-empty content at the size
  stage, are in a same reported group, whenever the three stages return their groups
  (which they do by \<open>duplicate_groups_returns\<close> when no listed file fails to open).
\<close>

theorem identical_files_grouped:
  assumes "a \<noteq> b" and "a \<in> set files" and "b \<in> set files"
    and "open_rb (fs_size w) a = Inr c1" and "open_rb (fs_size w) b = Inr c1" and "c1 \<noteq> []"
    and "open_rb (fs_partial w) a = Inr c2" and "open_rb (fs_partial w) b = Inr c2"
    and "open_rb (fs_full w) a = Inr c3" and "open_rb (fs_full w) b = Inr c3"
    and "duplicate_groups H w files = Inr groups"
  shows "\<exists>g \<in> set groups. a \<in> set g \<and> b \<in> set g"
proof -
  let ?P = "\<lambda>x. x = a \<or> x = b"
  have "\<exists>g \<in> set groups. filter ?P g = filter ?P files"
  proof (rule pipeline_keep [OF assms(11), where n = "length c1" and a = a])
    show "\<forall>x \<in> set files. ?P x \<longrightarrow> get_file_size (fs_size w) x = Some (length c1) \<and> length c1 \<noteq> 0"
      using assms(4,5,6) by (auto simp: get_file_size_open)
    show "\<forall>x \<in> set files. ?P x \<longrightarrow>
        hash_first_1k_bytes H (fs_partial w) x = hash_first_1k_bytes H (fs_partial w) a"
      using assms(7,8) by (auto simp: hash_first_1k_bytes_open)
    show "\<forall>x \<in> set files. ?P x \<longrightarrow> hash_file H (fs_full w) x = hash_file H (fs_full w) a"
      using assms(9,10) by (auto simp: hash_file_open)
    show "1 < length (filter ?P files)"
      using assms(1,2,3) by (rule two_members)
  qed
  then obtain g where g: "g \<in> set groups" and eq: "filter ?P g = filter ?P files" by blast
  have "a \<in> set (filter ?P g)" and "b \<in> set (filter ?P g)"
    unfolding eq using assms(2,3) by simp_all
  then have "a \<in> set g \<and> b \<in> set g" by simp
  with g show ?thesis by blast
qed

theorem identical_files_grouped_witness:
  "''d/a'' \<noteq> ''d/b'' \<and> ''d/a'' \<in> set [''d/a'', ''d/b''] \<and> ''d/b'' \<in> set [''d/a'', ''d/b''] \<and>
   open_rb two_copies ''d/a'' = Inr [104, 105] \<and> open_rb two_copies ''d/b'' = Inr [104, 105] \<and>
   [104, 105 :: byte] \<noteq> [] \<and>
   duplicate_groups (\<lambda>bs. bs) (static_world two_copies) [''d/a'', ''d/b''] = Inr [[''d/a'', ''d/b'']] \<and>
   (\<exists>g \<in> set [[''d/a'', ''d/b'']]. ''d/a'' \<in> set g \<and> ''d/b'' \<in> set g)"
proof -
  have o: "open_rb two_copies ''d/a'' = Inr [104, 105]" "open_rb two_copies ''d/b'' = Inr [104, 105]"
    by (simp_all add: run_defs two_copies_def)
  have r: "duplicate_groups (\<lambda>bs. bs) (static_world two_copies) [''d/a'', ''d/b''] = Inr [[''d/a'', ''d/b'']]"
    by (simp add: run_defs two_copies_def)
  have s: "fs_size (static_world two_copies) = two_copies" "fs_partial (static_world two_copies) = two_copies"
    "fs_full (static_world two_copies) = two_copies"
    by (simp_all add: static_world_def)
  have "\<exists>g \<in> set [[''d/a'', ''d/b'']]. ''d/a'' \<in> set g \<and> ''d/b'' \<in> set g"
    by (rule identical_files_grouped [where w = "static_world two_copies" and H = "\<lambda>bs. bs"
          and files = "[''d/a'', ''d/b'']" and ?c1.0 = "[104, 105]" and ?c2.0 = "[104, 105]"
          and ?c3.0 = "[104, 105]"])
      (simp_all add: s o r)
  with o r show ?thesis by simp
qed

lemma group_subset:
  assumes "duplicate_groups H w files = Inr groups" and "g \<in> set groups"
  shows "set g \<subseteq> set (partial_survivors H w files)"
    and "set g \<subseteq> set (size_survivors w files)"
    and "set g \<subseteq> set files"
proof -
  from assms(2) have "1 < length g \<and>
      (\<exists>h. g = filter (\<lambda>p. hash_key (hash_file H (fs_full w)) p = Some h) (partial_survivors H w files))"
    by (rule full_hash_group_iff [OF duplicate_groups_Inr(1) [OF assms(1)], THEN iffD1])
  then show 2: "set g \<subseteq> set (partial_survivors H w files)" by auto
  have "set (partial_survivors H w files) \<subseteq> set (size_survivors w files)"
    unfolding partial_survivors_def by (rule survivors_subset)
  with 2 show 1: "set g \<subseteq> set (size_survivors w files)" by (rule subset_trans)
  have "set (size_survivors w files) \<subseteq> set files"
    unfolding size_survivors_def by (rule survivors_subset)
  with 1 show "set g \<subseteq> set files" by (rule subset_trans)
qed

lemma size_survivors_size:
  "p \<in> set (size_survivors w files) \<Longrightarrow> \<exists>k. get_file_size (fs_size w) p = Some k \<and> 0 < k"
  by (auto simp: size_survivors_def survivors_member size_key_Some)

section \<open>Empty files\<close>

text \<open>
  Claim C7. A file whose size is 0 at the size probe does not pass the size stage, and so
  is in no reported group.
\<close>

theorem zero_byte_files_never_reported:
  "get_file_size (fs_size w) p = Some 0 \<Longrightarrow>
     p \<notin> set (filter_files_by_size (fs_size w) files) \<and>
     (duplicate_groups H w files = Inr groups \<longrightarrow> (\<forall>g \<in> set groups. p \<notin> set g))"
proof -
  assume z: "get_file_size (fs_size w) p = Some 0"
  have out: "p \<notin> set (size_survivors w files)"
    using z size_survivors_size [of p w files] by auto
  then have "p \<notin> set (filter_files_by_size (fs_size w) files)"
    by (simp add: filter_files_by_size_survivors size_survivors_def)
  moreover have "\<forall>g \<in> set groups. p \<notin> set g" if "duplicate_groups H w files = Inr groups"
    using group_subset(2) [OF that] out by blast
  ultimately show ?thesis by blast
qed

theorem zero_byte_files_never_reported_witness:
  "get_file_size (fs_size (static_world empty_and_copies)) ''d/a'' = Some 0 \<and>
   duplicate_groups (\<lambda>bs. bs) (static_world empty_and_copies) [''d/a'', ''d/b'', ''d/c'', ''d/e'']
     = Inr [[''d/c'', ''d/e'']] \<and>
   ''d/a'' \<notin> set (filter_files_by_size (fs_size (static_world empty_and_copies))
      [''d/a'', ''d/b'', ''d/c'', ''d/e'']) \<and>
   ''d/a'' \<notin> set [''d/c'', ''d/e'']"
proof -
  have z: "get_file_size (fs_size (static_world empty_and_copies)) ''d/a'' = Some 0"
    by (simp add: run_defs empty_and_copies_def)
  have r: "duplicate_groups (\<lambda>bs. bs) (static_world empty_and_copies) [''d/a'', ''d/b'', ''d/c'', ''d/e'']
     = Inr [[''d/c'', ''d/e'']]"
    by (simp add: run_defs empty_and_copies_def)
  from zero_byte_files_never_reported [OF z, of "[''d/a'', ''d/b'', ''d/c'', ''d/e'']"
      "\<lambda>bs. bs" "[[''d/c'', ''d/e'']]"] z r
  show ?thesis by simp
qed

section \<open>Repeated paths\<close>

lemma count_list_concat:
  "count_list (concat xss) p = sum_list (map (\<lambda>xs. count_list xs p) xss)"
  by (induction xss) simp_all

text \<open>
  Claim C9. The file list is the concatenation of the listings of the roots, so a path
  occurs in it as many times as in all the listings together. A path that occurs more
  than once, with a non-empty file that the size probe can see, is reported in a group with
  all its occurrences whenever the three stages return their groups: the file is a
  duplicate of itself.
\<close>

theorem repeated_path_reported_with_itself:
  "enumerate_files w (r # roots) = list_files (os_walk w) r @ enumerate_files w roots \<and>
   count_list (enumerate_files w roots) p
     = sum_list (map (\<lambda>r. count_list (list_files (os_walk w) r) p) roots) \<and>
   (1 < count_list (enumerate_files w roots) p \<and>
    get_file_size (fs_size w) p = Some n \<and> 0 < n \<and>
    duplicate_groups H w (enumerate_files w roots) = Inr groups \<longrightarrow>
      (\<exists>g \<in> set groups. count_list g p = count_list (enumerate_files w roots) p))"
proof (intro conjI impI)
  show "enumerate_files w (r # roots) = list_files (os_walk w) r @ enumerate_files w roots"
    by (simp add: enumerate_files_def)
  show "count_list (enumerate_files w roots) p
     = sum_list (map (\<lambda>r. count_list (list_files (os_walk w) r) p) roots)"
    by (simp add: enumerate_files_def count_list_concat comp_def)
next
  let ?files = "enumerate_files w roots"
  assume a: "1 < count_list ?files p \<and> get_file_size (fs_size w) p = Some n \<and> 0 < n \<and>
    duplicate_groups H w ?files = Inr groups"
  then have run: "duplicate_groups H w ?files = Inr groups" by simp
  have "\<exists>g \<in> set groups. filter ((=) p) g = filter ((=) p) ?files"
  proof (rule pipeline_keep [OF run, where n = n and a = p])
    show "\<forall>x \<in> set ?files. p = x \<longrightarrow> get_file_size (fs_size w) x = Some n \<and> n \<noteq> 0"
      using a by auto
    show "1 < length (filter ((=) p) ?files)"
      using a by (simp add: count_list_eq_length_filter)
  qed simp_all
  then obtain g where g: "g \<in> set groups" and eq: "filter ((=) p) g = filter ((=) p) ?files"
    by blast
  from eq have "count_list g p = count_list ?files p"
    by (simp add: count_list_eq_length_filter)
  with g show "\<exists>g \<in> set groups. count_list g p = count_list ?files p" by blast
qed

theorem repeated_path_reported_with_itself_witness:
  "enumerate_files (static_world two_copies) [''d'', ''d''] = [''d/a'', ''d/b'', ''d/a'', ''d/b''] \<and>
   1 < count_list (enumerate_files (static_world two_copies) [''d'', ''d'']) ''d/a'' \<and>
   get_file_size (fs_size (static_world two_copies)) ''d/a'' = Some 2 \<and> (0::nat) < 2 \<and>
   duplicate_groups (\<lambda>bs. bs) (static_world two_copies)
      (enumerate_files (static_world two_copies) [''d'', ''d''])
     = Inr [[''d/a'', ''d/b'', ''d/a'', ''d/b'']] \<and>
   (\<exists>g \<in> set [[''d/a'', ''d/b'', ''d/a'', ''d/b'']].
      count_list g ''d/a'' = count_list (enumerate_files (static_world two_copies) [''d'', ''d'']) ''d/a'')"
proof -
  have e: "enumerate_files (static_world two_copies) [''d'', ''d''] = [''d/a'', ''d/b'', ''d/a'', ''d/b'']"
    by (simp add: run_defs)
  have c: "1 < count_list (enumerate_files (static_world two_copies) [''d'', ''d'']) ''d/a''"
    unfolding e by simp
  have z: "get_file_size (fs_size (static_world two_copies)) ''d/a'' = Some 2"
    by (simp add: run_defs two_copies_def)
  have r: "duplicate_groups (\<lambda>bs. bs) (static_world two_copies)
      (enumerate_files (static_world two_copies) [''d'', ''d''])
     = Inr [[''d/a'', ''d/b'', ''d/a'', ''d/b'']]"
    unfolding e by (simp add: run_defs two_copies_def)
  have h: "1 < count_list (enumerate_files (static_world two_copies) [''d'', ''d'']) ''d/a'' \<and>
    get_file_size (fs_size (static_world two_copies)) ''d/a'' = Some 2 \<and> (0::nat) < 2 \<and>
    duplicate_groups (\<lambda>bs. bs) (static_world two_copies)
      (enumerate_files (static_world two_copies) [''d'', ''d''])
     = Inr [[''d/a'', ''d/b'', ''d/a'', ''d/b'']]"
    using c z r by simp
  have "\<exists>g \<in> set [[''d/a'', ''d/b'', ''d/a'', ''d/b'']].
      count_list g ''d/a'' = count_list (enumerate_files (static_world two_copies) [''d'', ''d'']) ''d/a''"
    by (rule repeated_path_reported_with_itself [of "static_world two_copies" "''d''" "[''d'', ''d'']"
      "''d/a''" 2 "\<lambda>bs. bs" "[[''d/a'', ''d/b'', ''d/a'', ''d/b'']]",
      THEN conjunct2, THEN conjunct2, THEN mp, OF h])
  with e h show ?thesis by (intro conjI) simp_all
qed

section \<open>Human-readable sizes\<close>

lemmas format_defs = file_size_string_def sizes_def decimal_ops_def fixed2_def
  dec.simps ilog_1000.simps

text \<open>
  Claim C5. \<open>file_size_string\<close> names the units \<open>B\<close>, \<open>KB\<close>, \<open>MB\<close>, ... up to \<open>YB\<close>, in
  steps of 1000: below 1000 the text is the two-decimal format of the number followed by
  \<open>B\<close>; from 1000 on it is the two-decimal format of the number divided by \<open>1000 ** e\<close>
  followed by the unit number \<open>e\<close> of the table, where \<open>e\<close> is the integer part of the
  logarithm to base 1000, and there is no unit beyond \<open>YB\<close> (\<open>IndexError\<close>). With the
  values that the floating-point operations give at 0, 999, 1000 and 1000000, the texts
  are \<open>0.00B\<close>, \<open>999.00B\<close>, \<open>1.00KB\<close> and \<open>1.00MB\<close>.
\<close>

theorem file_size_string_units:
  "sizes = [''B'', ''KB'', ''MB'', ''GB'', ''TB'', ''PB'', ''EB'', ''ZB'', ''YB''] \<and>
   (n < 1000 \<longrightarrow> file_size_string fl (Some n) = Inr (fmt_int fl n @ ''B'')) \<and>
   (1000 \<le> m \<and> log_1000 fl m < 9 \<longrightarrow>
      file_size_string fl (Some m) = Inr (fmt_quot fl m (log_1000 fl m) @ sizes ! log_1000 fl m)) \<and>
   (1000 \<le> k \<and> 9 \<le> log_1000 fl k \<longrightarrow> file_size_string fl (Some k) = Inl IndexError) \<and>
   (fmt_int fl 0 = ''0.00'' \<longrightarrow> file_size_string fl (Some 0) = Inr ''0.00B'') \<and>
   (fmt_int fl 999 = ''999.00'' \<longrightarrow> file_size_string fl (Some 999) = Inr ''999.00B'') \<and>
   (log_1000 fl 1000 = 1 \<and> fmt_quot fl 1000 1 = ''1.00'' \<longrightarrow>
      file_size_string fl (Some 1000) = Inr ''1.00KB'') \<and>
   (log_1000 fl 1000000 = 2 \<and> fmt_quot fl 1000000 2 = ''1.00'' \<longrightarrow>
      file_size_string fl (Some 1000000) = Inr ''1.00MB'')"
  by (simp add: file_size_string_def sizes_def Let_def)

theorem file_size_string_units_witness:
  "(512::nat) < 1000 \<and>
   (1000::nat) \<le> 1500 \<and> log_1000 decimal_ops 1500 < 9 \<and>
   (1000::nat) \<le> 1000000000000000000000000000 \<and>
   9 \<le> log_1000 decimal_ops 1000000000000000000000000000 \<and>
   fmt_int decimal_ops 0 = ''0.00'' \<and> fmt_int decimal_ops 999 = ''999.00'' \<and>
   log_1000 decimal_ops 1000 = 1 \<and> fmt_quot decimal_ops 1000 1 = ''1.00'' \<and>
   log_1000 decimal_ops 1000000 = 2 \<and> fmt_quot decimal_ops 1000000 2 = ''1.00'' \<and>
   file_size_string decimal_ops (Some 512) = Inr ''512.00B'' \<and>
   file_size_string decimal_ops (Some 1500) = Inr ''1.50KB'' \<and>
   file_size_string decimal_ops (Some 1000000000000000000000000000) = Inl IndexError \<and>
   file_size_string decimal_ops (Some 0) = Inr ''0.00B'' \<and>
   file_size_string decimal_ops (Some 999) = Inr ''999.00B'' \<and>
   file_size_string decimal_ops (Some 1000) = Inr ''1.00KB'' \<and>
   file_size_string decimal_ops (Some 1000000) = Inr ''1.00MB''"
proof -
  have h: "log_1000 decimal_ops 1500 = 1"
    "log_1000 decimal_ops 1000000000000000000000000000 = 9"
    "fmt_int decimal_ops 0 = ''0.00''" "fmt_int decimal_ops 999 = ''999.00''"
    "log_1000 decimal_ops 1000 = 1" "fmt_quot decimal_ops 1000 1 = ''1.00''"
    "log_1000 decimal_ops 1000000 = 2" "fmt_quot decimal_ops 1000000 2 = ''1.00''"
    "fmt_int decimal_ops 512 = ''512.00''" "fmt_quot decimal_ops 1500 1 = ''1.50''"
    by (simp_all add: format_defs)
  note t = file_size_string_units [of 512 decimal_ops 1500 1000000000000000000000000000]
  from t h show ?thesis by (simp add: sizes_def)
qed

section \<open>The report probes the first file again\<close>

lemma print_duplicates_append:
  "print_duplicates fl fs pre out = (out1, None) \<Longrightarrow>
     print_duplicates fl fs (pre @ gs) out = print_duplicates fl fs gs out1"
proof (induction pre arbitrary: out)
  case Nil
  then show ?case by simp
next
  case (Cons g pre)
  then show ?case
    by (cases g; cases "file_size_string fl (get_file_size fs (hd g))") auto
qed

text \<open>
  Claim C10. The report does not use a size kept from the size stage: it probes the first
  file of each group again, in the file system as it is then. When the probe succeeds, the
  size printed for the group is the text of that new size and the paths of the group
  follow. When the file cannot be probed any more, although it had a positive size at the
  size stage, \<open>file_size_string\<close> is called on \<open>None\<close> and raises \<open>TypeError\<close>: the
  run ends there, after the groups before it and the heading of this one, with neither the
  size nor the paths of the group printed.
\<close>

theorem report_probes_first_file_again:
  "(duplicate_groups H w (enumerate_files w roots) = Inr (pre @ (first # others) # post) \<and>
    print_duplicates fl (fs_report w) pre [] = (out, None) \<and>
    get_file_size (fs_report w) first = Some n \<and> file_size_string fl (Some n) = Inr s \<longrightarrow>
      check_for_duplicates H fl w roots
        = print_duplicates fl (fs_report w) post
            (out @ [''Found duplicate files:'', ''Size:  '' @ s] @ first # others)) \<and>
   (duplicate_groups H w' (enumerate_files w' roots') = Inr (pre' @ (first' # others') # post') \<and>
    print_duplicates fl (fs_report w') pre' [] = (out', None) \<and>
    get_file_size (fs_report w') first' = None \<longrightarrow>
      (\<exists>k. get_file_size (fs_size w') first' = Some k \<and> 0 < k) \<and>
      file_size_string fl (get_file_size (fs_report w') first') = Inl TypeError \<and>
      check_for_duplicates H fl w' roots' = (out' @ [''Found duplicate files:''], Some TypeError))"
proof (intro conjI impI)
  assume a: "duplicate_groups H w (enumerate_files w roots) = Inr (pre @ (first # others) # post) \<and>
    print_duplicates fl (fs_report w) pre [] = (out, None) \<and>
    get_file_size (fs_report w) first = Some n \<and> file_size_string fl (Some n) = Inr s"
  then have "print_duplicates fl (fs_report w) (pre @ (first # others) # post) []
      = print_duplicates fl (fs_report w) ((first # others) # post) out"
    by (simp add: print_duplicates_append)
  also have "\<dots> = print_duplicates fl (fs_report w) post
            (out @ [''Found duplicate files:'', ''Size:  '' @ s] @ first # others)"
    using a by simp
  finally show "check_for_duplicates H fl w roots
        = print_duplicates fl (fs_report w) post
            (out @ [''Found duplicate files:'', ''Size:  '' @ s] @ first # others)"
    using a by (simp add: check_for_duplicates_def)
next
  assume b: "duplicate_groups H w' (enumerate_files w' roots') = Inr (pre' @ (first' # others') # post') \<and>
    print_duplicates fl (fs_report w') pre' [] = (out', None) \<and>
    get_file_size (fs_report w') first' = None"
  then have run: "duplicate_groups H w' (enumerate_files w' roots') = Inr (pre' @ (first' # others') # post')"
    by simp
  have "set (first' # others') \<subseteq> set (size_survivors w' (enumerate_files w' roots'))"
    by (rule group_subset(2) [OF run]) simp
  then have "first' \<in> set (size_survivors w' (enumerate_files w' roots'))" by simp
  then show "\<exists>k. get_file_size (fs_size w') first' = Some k \<and> 0 < k"
    by (rule size_survivors_size)
  show t: "file_size_string fl (get_file_size (fs_report w') first') = Inl TypeError"
    using b by (simp add: file_size_string_def)
  have "print_duplicates fl (fs_report w') (pre' @ (first' # others') # post') []
      = print_duplicates fl (fs_report w') ((first' # others') # post') out'"
    using b by (simp add: print_duplicates_append)
  also have "\<dots> = (out' @ [''Found duplicate files:''], Some TypeError)"
    by (simp add: t)
  finally show "check_for_duplicates H fl w' roots' = (out' @ [''Found duplicate files:''], Some TypeError)"
    using run by (simp add: check_for_duplicates_def)
qed

theorem report_probes_first_file_again_witness:
  "duplicate_groups (\<lambda>bs. bs) grown_at_report (enumerate_files grown_at_report [''d''])
     = Inr ([] @ (''d/a'' # [''d/b'']) # []) \<and>
   print_duplicates decimal_ops (fs_report grown_at_report) [] [] = ([], None) \<and>
   get_file_size (fs_size grown_at_report) ''d/a'' = Some 2 \<and>
   get_file_size (fs_report grown_at_report) ''d/a'' = Some 3 \<and>
   file_size_string decimal_ops (Some 3) = Inr ''3.00B'' \<and>
   check_for_duplicates (\<lambda>bs. bs) decimal_ops grown_at_report [''d'']
     = ([''Found duplicate files:'', ''Size:  3.00B'', ''d/a'', ''d/b''], None) \<and>
   duplicate_groups (\<lambda>bs. bs) gone_at_report (enumerate_files gone_at_report [''d''])
     = Inr ([] @ (''d/a'' # [''d/b'']) # []) \<and>
   print_duplicates decimal_ops (fs_report gone_at_report) [] [] = ([], None) \<and>
   get_file_size (fs_report gone_at_report) ''d/a'' = None \<and>
   get_file_size (fs_size gone_at_report) ''d/a'' = Some 2 \<and>
   check_for_duplicates (\<lambda>bs. bs) decimal_ops gone_at_report [''d'']
     = ([''Found duplicate files:''], Some TypeError)"
proof -
  have r: "duplicate_groups (\<lambda>bs. bs) grown_at_report (enumerate_files grown_at_report [''d''])
     = Inr ([] @ (''d/a'' # [''d/b'']) # [])"
    by (simp add: run_defs grown_at_report_def two_copies_def)
  have p: "print_duplicates decimal_ops (fs_report grown_at_report) [] [] = ([], None)" by simp
  have s2: "get_file_size (fs_size grown_at_report) ''d/a'' = Some 2"
    by (simp add: run_defs grown_at_report_def two_copies_def)
  have s3: "get_file_size (fs_report grown_at_report) ''d/a'' = Some 3"
    by (simp add: run_defs grown_at_report_def grown_copy_def)
  have f: "file_size_string decimal_ops (Some 3) = Inr ''3.00B''"
    by (simp add: format_defs)
  have r': "duplicate_groups (\<lambda>bs. bs) gone_at_report (enumerate_files gone_at_report [''d''])
     = Inr ([] @ (''d/a'' # [''d/b'']) # [])"
    by (simp add: run_defs gone_at_report_def two_copies_def)
  have p': "print_duplicates decimal_ops (fs_report gone_at_report) [] [] = ([], None)" by simp
  have n': "get_file_size (fs_report gone_at_report) ''d/a'' = None"
    by (simp add: run_defs gone_at_report_def)
  have s': "get_file_size (fs_size gone_at_report) ''d/a'' = Some 2"
    by (simp add: run_defs gone_at_report_def two_copies_def)
  note t = report_probes_first_file_again [of "\<lambda>bs. bs" grown_at_report "[''d'']" "[]"
      "''d/a''" "[''d/b'']" "[]" decimal_ops "[]" 3 "''3.00B''"
      gone_at_report "[''d'']" "[]" "''d/a''" "[''d/b'']" "[]" "[]"]
  from t r p s3 f have 1: "check_for_duplicates (\<lambda>bs. bs) decimal_ops grown_at_report [''d'']
     = ([''Found duplicate files:'', ''Size:  3.00B'', ''d/a'', ''d/b''], None)"
    by simp
  from t r' p' n' have 2: "check_for_duplicates (\<lambda>bs. bs) decimal_ops gone_at_report [''d'']
     = ([''Found duplicate files:''], Some TypeError)"
    by simp
  from r p s2 s3 f 1 r' p' n' s' 2 show ?thesis by (intro conjI)
qed

section \<open>Files of different sizes\<close>

text \<open>
  Claim C3, as stated, covers the partial-fingerprint stage. That stage groups the flat
  output of the size stage by the fingerprint of the first 1024 bytes alone: files of
  1024 and of 1025 zero bytes (two of each, so that all four pass the size stage) are in
  one group there.
\<close>

theorem partial_stage_mixes_sizes:
  "get_file_size same_prefix ''d/a1'' = Some 1024 \<and>
   get_file_size same_prefix ''d/b1'' = Some 1025 \<and>
   files_by_hash (hash_first_1k_bytes (\<lambda>bs. bs) same_prefix)
     (filter_files_by_size same_prefix [''d/a1'', ''d/b1'', ''d/a2'', ''d/b2'']) []
     = Inr [(replicate 1024 0, [''d/a1'', ''d/a2'', ''d/b1'', ''d/b2''])]"
  by (simp add: run_defs same_prefix_def)

lemma files_by_size_group:
  "(k, ps) \<in> set (files_by_size fs files []) \<Longrightarrow> p \<in> set ps \<Longrightarrow> get_file_size fs p = Some k"
  by (auto simp: files_by_size_group_by group_by_member size_key_Some)

lemma files_by_hash_group:
  "files_by_hash hf files [] = Inr d \<Longrightarrow> (h, ps) \<in> set d \<Longrightarrow> p \<in> set ps \<Longrightarrow> hf p = Inr h"
  by (drule files_by_hash_Inr) (auto simp: group_by_member hash_key_Some)

lemma hash_first_1k_bytes_Inr:
  "hash_first_1k_bytes H fs p = Inr h \<Longrightarrow> \<exists>c. open_rb fs p = Inr c \<and> H (take 1024 c) = h"
  by (auto simp: hash_first_1k_bytes_open split: sum.splits)

lemma hash_file_Inr:
  "hash_file H fs p = Inr h \<Longrightarrow> \<exists>c. open_rb fs p = Inr c \<and> H c = h"
  by (auto simp: hash_file_open split: sum.splits)

lemma full_hash_group:
  assumes "group_files_by_full_hash H fs files = Inr groups" and "g \<in> set groups"
  shows "\<exists>h. \<forall>p \<in> set g. hash_file H fs p = Inr h"
proof -
  from assms(2) have "1 < length g \<and>
      (\<exists>h. g = filter (\<lambda>p. hash_key (hash_file H fs) p = Some h) files)"
    by (rule full_hash_group_iff [OF assms(1), THEN iffD1])
  then obtain h where "g = filter (\<lambda>p. hash_key (hash_file H fs) p = Some h) files" by blast
  then have "\<forall>p \<in> set g. hash_file H fs p = Inr h" by (simp add: hash_key_Some)
  then show ?thesis ..
qed

text \<open>
  Claim C3, amended. Two files in a same group of the size stage have the same size.
  Two files in a same group of the partial-fingerprint stage have first 1024 bytes with
  the same fingerprint, whatever their sizes. Two files in a same reported group have
  contents with the same fingerprint: their sizes differ only if the digest collides,
  and never when it is injective.
\<close>

theorem different_sizes_apart:
  "((k, ps) \<in> set (files_by_size (fs_size w) files []) \<and> a \<in> set ps \<and> b \<in> set ps \<longrightarrow>
      get_file_size (fs_size w) a = Some k \<and> get_file_size (fs_size w) b = Some k) \<and>
   (files_by_hash (hash_first_1k_bytes H (fs_partial w)) (filter_files_by_size (fs_size w) files) [] = Inr d \<and>
      (h, ps') \<in> set d \<and> a \<in> set ps' \<and> b \<in> set ps' \<longrightarrow>
      (\<exists>ca cb. open_rb (fs_partial w) a = Inr ca \<and> open_rb (fs_partial w) b = Inr cb \<and>
         H (take 1024 ca) = h \<and> H (take 1024 cb) = h)) \<and>
   (duplicate_groups H w files = Inr groups \<and> g \<in> set groups \<and> a \<in> set g \<and> b \<in> set g \<longrightarrow>
      (\<exists>ca cb. open_rb (fs_full w) a = Inr ca \<and> open_rb (fs_full w) b = Inr cb \<and>
         H ca = H cb \<and> (inj H \<longrightarrow> length ca = length cb)))"
proof (intro conjI impI)
  assume "(k, ps) \<in> set (files_by_size (fs_size w) files []) \<and> a \<in> set ps \<and> b \<in> set ps"
  then show "get_file_size (fs_size w) a = Some k" and "get_file_size (fs_size w) b = Some k"
    by (auto dest: files_by_size_group)
next
  assume "files_by_hash (hash_first_1k_bytes H (fs_partial w)) (filter_files_by_size (fs_size w) files) [] = Inr d \<and>
      (h, ps') \<in> set d \<and> a \<in> set ps' \<and> b \<in> set ps'"
  then have "hash_first_1k_bytes H (fs_partial w) a = Inr h"
    and "hash_first_1k_bytes H (fs_partial w) b = Inr h"
    by (auto dest: files_by_hash_group)
  then show "\<exists>ca cb. open_rb (fs_partial w) a = Inr ca \<and> open_rb (fs_partial w) b = Inr cb \<and>
         H (take 1024 ca) = h \<and> H (take 1024 cb) = h"
    by (auto dest!: hash_first_1k_bytes_Inr)
next
  assume *: "duplicate_groups H w files = Inr groups \<and> g \<in> set groups \<and> a \<in> set g \<and> b \<in> set g"
  then have "group_files_by_full_hash H (fs_full w) (partial_survivors H w files) = Inr groups"
    by (simp add: duplicate_groups_Inr(1))
  from full_hash_group [OF this] * obtain h where
    "hash_file H (fs_full w) a = Inr h" and "hash_file H (fs_full w) b = Inr h"
    by blast
  then obtain ca cb where "open_rb (fs_full w) a = Inr ca" "open_rb (fs_full w) b = Inr cb"
    "H ca = H cb"
    by (auto dest!: hash_file_Inr)
  then show "\<exists>ca cb. open_rb (fs_full w) a = Inr ca \<and> open_rb (fs_full w) b = Inr cb \<and>
         H ca = H cb \<and> (inj H \<longrightarrow> length ca = length cb)"
    by (auto dest: injD)
qed

theorem different_sizes_apart_witness:
  "(2, [''d/a'', ''d/b'']) \<in> set (files_by_size (fs_size (static_world two_copies)) [''d/a'', ''d/b''] []) \<and>
   get_file_size (fs_size (static_world two_copies)) ''d/a'' = Some 2 \<and>
   get_file_size (fs_size (static_world two_copies)) ''d/b'' = Some 2 \<and>
   files_by_hash (hash_first_1k_bytes (\<lambda>bs. bs) (fs_partial (static_world two_copies)))
     (filter_files_by_size (fs_size (static_world two_copies)) [''d/a'', ''d/b'']) []
     = Inr [([104, 105], [''d/a'', ''d/b''])] \<and>
   duplicate_groups (\<lambda>bs. bs) (static_world two_copies) [''d/a'', ''d/b''] = Inr [[''d/a'', ''d/b'']] \<and>
   inj (\<lambda>bs :: byte list. bs) \<and>
   (\<exists>ca cb. open_rb (fs_full (static_world two_copies)) ''d/a'' = Inr ca \<and>
      open_rb (fs_full (static_world two_copies)) ''d/b'' = Inr cb \<and> length ca = length cb)"
proof -
  let ?w = "static_world two_copies"
  have s: "(2, [''d/a'', ''d/b'']) \<in> set (files_by_size (fs_size ?w) [''d/a'', ''d/b''] [])"
    by (simp add: run_defs two_copies_def)
  have p: "files_by_hash (hash_first_1k_bytes (\<lambda>bs. bs) (fs_partial ?w))
     (filter_files_by_size (fs_size ?w) [''d/a'', ''d/b'']) [] = Inr [([104, 105], [''d/a'', ''d/b''])]"
    by (simp add: run_defs two_copies_def)
  have r: "duplicate_groups (\<lambda>bs. bs) ?w [''d/a'', ''d/b''] = Inr [[''d/a'', ''d/b'']]"
    by (simp add: run_defs two_copies_def)
  have i: "inj (\<lambda>bs :: byte list. bs)" by (simp add: inj_on_def)
  note t = different_sizes_apart [of 2 "[''d/a'', ''d/b'']" ?w "[''d/a'', ''d/b'']" "''d/a''" "''d/b''"
      "\<lambda>bs. bs" "[([104, 105], [''d/a'', ''d/b''])]" "[104, 105]" "[''d/a'', ''d/b'']"
      "[[''d/a'', ''d/b'']]" "[''d/a'', ''d/b'']"]
  from t s have 1: "get_file_size (fs_size ?w) ''d/a'' = Some 2 \<and> get_file_size (fs_size ?w) ''d/b'' = Some 2"
    by simp
  from t r i have 3: "\<exists>ca cb. open_rb (fs_full ?w) ''d/a'' = Inr ca \<and>
      open_rb (fs_full ?w) ''d/b'' = Inr cb \<and> length ca = length cb"
    by auto
  from s p r i 1 3 show ?thesis by blast
qed

section \<open>The pipeline only narrows\<close>

lemma survivors_shares:
  assumes "p \<in> set (survivors key xs)"
  shows "1 < length (filter (\<lambda>q. key q = key p) (survivors key xs))"
    and "distinct xs \<Longrightarrow> \<exists>q \<in> set (survivors key xs). q \<noteq> p \<and> key q = key p"
proof -
  from assms obtain k where k: "key p = Some k" by (auto simp: survivors_member)
  let ?F = "filter (\<lambda>q. key q = key p) (survivors key xs)"
  have "?F = filter (\<lambda>q. key q = Some k) xs"
    unfolding k by (rule survivors_same_key(1) [OF assms k])
  with survivors_same_key(2) [OF assms k] show len: "1 < length ?F" by simp
  assume "distinct xs"
  then have d: "distinct ?F" by (simp add: distinct_survivors)
  have m: "p \<in> set ?F" using assms by simp
  from other_member [OF d len m] obtain q where "q \<in> set ?F" "q \<noteq> p" ..
  then show "\<exists>q \<in> set (survivors key xs). q \<noteq> p \<and> key q = key p" by auto
qed

lemma size_key_eq:
  "size_key fs p = Some k \<Longrightarrow> size_key fs q = size_key fs p \<longleftrightarrow> get_file_size fs q = get_file_size fs p"
  by (auto simp: size_key_def split: option.splits if_splits)

lemma hash_key_eq:
  "hash_key hf p = Some h \<Longrightarrow> hash_key hf q = hash_key hf p \<longleftrightarrow> hf q = hf p"
  by (auto simp: hash_key_def split: sum.splits)

lemma size_stage_shares:
  assumes "p \<in> set (filter_files_by_size fs files)"
  shows "1 < length (filter (\<lambda>q. get_file_size fs q = get_file_size fs p) (filter_files_by_size fs files))"
    and "distinct files \<Longrightarrow>
      \<exists>q \<in> set (filter_files_by_size fs files). q \<noteq> p \<and> get_file_size fs q = get_file_size fs p"
proof -
  from assms have p: "p \<in> set (survivors (size_key fs) files)"
    by (simp add: filter_files_by_size_survivors)
  then obtain k where k: "size_key fs p = Some k" by (auto simp: survivors_member)
  show "1 < length (filter (\<lambda>q. get_file_size fs q = get_file_size fs p) (filter_files_by_size fs files))"
    using survivors_shares(1) [OF p]
    by (simp add: filter_files_by_size_survivors size_key_eq [OF k])
  assume "distinct files"
  from survivors_shares(2) [OF p this]
  show "\<exists>q \<in> set (filter_files_by_size fs files). q \<noteq> p \<and> get_file_size fs q = get_file_size fs p"
    by (simp add: filter_files_by_size_survivors size_key_eq [OF k])
qed

lemma hash_stage_shares:
  assumes "p \<in> set (survivors (hash_key hf) files)"
  shows "1 < length (filter (\<lambda>q. hf q = hf p) (survivors (hash_key hf) files))"
    and "distinct files \<Longrightarrow> \<exists>q \<in> set (survivors (hash_key hf) files). q \<noteq> p \<and> hf q = hf p"
proof -
  from assms obtain h where h: "hash_key hf p = Some h" by (auto simp: survivors_member)
  show "1 < length (filter (\<lambda>q. hf q = hf p) (survivors (hash_key hf) files))"
    using survivors_shares(1) [OF assms] by (simp add: hash_key_eq [OF h])
  assume "distinct files"
  from survivors_shares(2) [OF assms this]
  show "\<exists>q \<in> set (survivors (hash_key hf) files). q \<noteq> p \<and> hf q = hf p"
    by (simp add: hash_key_eq [OF h])
qed

lemma full_stage_group:
  assumes "group_files_by_full_hash H fs files = Inr groups" and "g \<in> set groups"
  shows "1 < length g" and "set g \<subseteq> set files"
    and "p \<in> set g \<Longrightarrow> \<forall>q \<in> set g. hash_file H fs q = hash_file H fs p"
    and "distinct files \<Longrightarrow> distinct g"
proof -
  from assms(2) have *: "1 < length g \<and>
      (\<exists>h. g = filter (\<lambda>p. hash_key (hash_file H fs) p = Some h) files)"
    by (rule full_hash_group_iff [OF assms(1), THEN iffD1])
  then show "1 < length g" by simp
  from * show "set g \<subseteq> set files" by auto
  from * show "distinct files \<Longrightarrow> distinct g" by auto
  from full_hash_group [OF assms] obtain h where "\<forall>q \<in> set g. hash_file H fs q = Inr h" ..
  then show "p \<in> set g \<Longrightarrow> \<forall>q \<in> set g. hash_file H fs q = hash_file H fs p" by simp
qed

text \<open>
  Claim C4, as stated, promises every kept file another file with the same discriminator.
  The file list is not deduplicated: when it holds the path of a single file twice, the
  size stage keeps both entries and no other file is there.
\<close>

theorem kept_file_without_other_file:
  "get_file_size one_file ''p'' = Some 1 \<and>
   filter_files_by_size one_file [''p'', ''p''] = [''p'', ''p''] \<and>
   set (filter_files_by_size one_file [''p'', ''p'']) = {''p''}"
  by (simp add: run_defs one_file_def)

text \<open>
  Claim C4, amended. The output of each stage holds only paths of its input. Every path
  kept by a stage has its discriminator (size, partial fingerprint, full fingerprint) in
  common with at least one other entry kept by that stage, which is a different path when
  the input lists no path twice. Every reported group has at least two entries, all from
  the file list.
\<close>

theorem stages_only_narrow:
  "(set (filter_files_by_size fs files) \<subseteq> set files \<and>
    (p \<in> set (filter_files_by_size fs files) \<longrightarrow>
       1 < length (filter (\<lambda>q. get_file_size fs q = get_file_size fs p) (filter_files_by_size fs files)) \<and>
       (distinct files \<longrightarrow>
          (\<exists>q \<in> set (filter_files_by_size fs files). q \<noteq> p \<and> get_file_size fs q = get_file_size fs p)))) \<and>
   (filter_files_by_first_1k_bytes H fs files = Inr out \<longrightarrow>
      set out \<subseteq> set files \<and>
      (p \<in> set out \<longrightarrow>
         1 < length (filter (\<lambda>q. hash_first_1k_bytes H fs q = hash_first_1k_bytes H fs p) out) \<and>
         (distinct files \<longrightarrow>
            (\<exists>q \<in> set out. q \<noteq> p \<and> hash_first_1k_bytes H fs q = hash_first_1k_bytes H fs p)))) \<and>
   (group_files_by_full_hash H fs files = Inr groups \<and> g \<in> set groups \<longrightarrow>
      1 < length g \<and> set g \<subseteq> set files \<and>
      (p \<in> set g \<longrightarrow> (\<forall>q \<in> set g. hash_file H fs q = hash_file H fs p)) \<and>
      (distinct files \<longrightarrow> distinct g)) \<and>
   (duplicate_groups H w files = Inr groups' \<and> g' \<in> set groups' \<longrightarrow>
      1 < length g' \<and> set g' \<subseteq> set files)"
proof (intro conjI impI)
  show "set (filter_files_by_size fs files) \<subseteq> set files"
    by (simp add: filter_files_by_size_survivors survivors_subset)
next
  assume "p \<in> set (filter_files_by_size fs files)"
  then show "1 < length (filter (\<lambda>q. get_file_size fs q = get_file_size fs p) (filter_files_by_size fs files))"
    by (rule size_stage_shares(1))
next
  assume "p \<in> set (filter_files_by_size fs files)" and "distinct files"
  then show "\<exists>q \<in> set (filter_files_by_size fs files). q \<noteq> p \<and> get_file_size fs q = get_file_size fs p"
    by (rule size_stage_shares(2))
next
  assume "filter_files_by_first_1k_bytes H fs files = Inr out"
  then have "out = survivors (hash_key (hash_first_1k_bytes H fs)) files"
    by (rule filter_files_by_first_1k_bytes_Inr [THEN conjunct1])
  then show "set out \<subseteq> set files"
    by (simp only: survivors_subset)
next
  assume r: "filter_files_by_first_1k_bytes H fs files = Inr out" and p: "p \<in> set out"
  have o: "out = survivors (hash_key (hash_first_1k_bytes H fs)) files"
    using r by (rule filter_files_by_first_1k_bytes_Inr [THEN conjunct1])
  from p show "1 < length (filter (\<lambda>q. hash_first_1k_bytes H fs q = hash_first_1k_bytes H fs p) out)"
    unfolding o by (rule hash_stage_shares(1))
next
  assume r: "filter_files_by_first_1k_bytes H fs files = Inr out" and p: "p \<in> set out"
    and d: "distinct files"
  have o: "out = survivors (hash_key (hash_first_1k_bytes H fs)) files"
    using r by (rule filter_files_by_first_1k_bytes_Inr [THEN conjunct1])
  from p d show "\<exists>q \<in> set out. q \<noteq> p \<and> hash_first_1k_bytes H fs q = hash_first_1k_bytes H fs p"
    unfolding o by (rule hash_stage_shares(2))
next
  assume *: "group_files_by_full_hash H fs files = Inr groups \<and> g \<in> set groups"
  then have r: "group_files_by_full_hash H fs files = Inr groups" and g: "g \<in> set groups"
    by simp_all
  show "1 < length g" by (rule full_stage_group(1) [OF r g])
  show "set g \<subseteq> set files" by (rule full_stage_group(2) [OF r g])
  show "\<forall>q \<in> set g. hash_file H fs q = hash_file H fs p" if "p \<in> set g"
    using that by (rule full_stage_group(3) [OF r g])
  show "distinct g" if "distinct files"
    using that by (rule full_stage_group(4) [OF r g])
next
  assume *: "duplicate_groups H w files = Inr groups' \<and> g' \<in> set groups'"
  then have r: "duplicate_groups H w files = Inr groups'" and g: "g' \<in> set groups'"
    by simp_all
  show "1 < length g'"
    by (rule full_stage_group(1) [OF duplicate_groups_Inr(1) [OF r] g])
  show "set g' \<subseteq> set files" by (rule group_subset(3) [OF r g])
qed

theorem stages_only_narrow_witness:
  "''d/a'' \<in> set (filter_files_by_size two_copies [''d/a'', ''d/b'']) \<and>
   distinct [''d/a'', ''d/b''] \<and>
   filter_files_by_first_1k_bytes (\<lambda>bs. bs) two_copies [''d/a'', ''d/b''] = Inr [''d/a'', ''d/b''] \<and>
   group_files_by_full_hash (\<lambda>bs. bs) two_copies [''d/a'', ''d/b''] = Inr [[''d/a'', ''d/b'']] \<and>
   duplicate_groups (\<lambda>bs. bs) (static_world two_copies) [''d/a'', ''d/b''] = Inr [[''d/a'', ''d/b'']] \<and>
   (\<exists>q \<in> set (filter_files_by_size two_copies [''d/a'', ''d/b'']).
      q \<noteq> ''d/a'' \<and> get_file_size two_copies q = get_file_size two_copies ''d/a'') \<and>
   (\<exists>q \<in> set [''d/a'', ''d/b''].
      q \<noteq> ''d/a'' \<and> hash_first_1k_bytes (\<lambda>bs. bs) two_copies q = hash_first_1k_bytes (\<lambda>bs. bs) two_copies ''d/a'') \<and>
   hash_file (\<lambda>bs. bs) two_copies ''d/b'' = hash_file (\<lambda>bs. bs) two_copies ''d/a'' \<and>
   1 < length [''d/a'', ''d/b'']"
proof -
  have 1: "''d/a'' \<in> set (filter_files_by_size two_copies [''d/a'', ''d/b''])"
    by (simp add: run_defs two_copies_def)
  have 2: "distinct [''d/a'', ''d/b'']" by simp
  have 3: "filter_files_by_first_1k_bytes (\<lambda>bs. bs) two_copies [''d/a'', ''d/b''] = Inr [''d/a'', ''d/b'']"
    by (simp add: run_defs two_copies_def)
  have 4: "group_files_by_full_hash (\<lambda>bs. bs) two_copies [''d/a'', ''d/b''] = Inr [[''d/a'', ''d/b'']]"
    by (simp add: run_defs two_copies_def)
  have 5: "duplicate_groups (\<lambda>bs. bs) (static_world two_copies) [''d/a'', ''d/b''] = Inr [[''d/a'', ''d/b'']]"
    by (simp add: run_defs two_copies_def)
  note t = stages_only_narrow [of two_copies "[''d/a'', ''d/b'']" "''d/a''" "\<lambda>bs. bs"
      "[''d/a'', ''d/b'']" "[[''d/a'', ''d/b'']]" "[''d/a'', ''d/b'']" "static_world two_copies"
      "[[''d/a'', ''d/b'']]" "[''d/a'', ''d/b'']"]
  from t 1 2 have a: "\<exists>q \<in> set (filter_files_by_size two_copies [''d/a'', ''d/b'']).
      q \<noteq> ''d/a'' \<and> get_file_size two_copies q = get_file_size two_copies ''d/a''"
    by simp
  from t 3 2 have b: "\<exists>q \<in> set [''d/a'', ''d/b''].
      q \<noteq> ''d/a'' \<and> hash_first_1k_bytes (\<lambda>bs. bs) two_copies q = hash_first_1k_bytes (\<lambda>bs. bs) two_copies ''d/a''"
    by simp
  from t 4 have c: "hash_file (\<lambda>bs. bs) two_copies ''d/b'' = hash_file (\<lambda>bs. bs) two_copies ''d/a''"
    by simp
  from 1 2 3 4 5 a b c show ?thesis by simp
qed

section \<open>Order inside a group\<close>

text \<open>
  Claim C8, as stated, holds for every reported group. The size stage concatenates its
  groups, which moves files of a later size group behind all files of an earlier one.
  When such files end up in one reported group the enumeration order is lost: here \<open>a\<close>
  and \<open>c\<close> have one byte and \<open>b\<close> and \<open>e\<close> two at the size stage, and \<open>a\<close> and \<open>c\<close> are
  rewritten with the content of \<open>b\<close> before they are fingerprinted.
\<close>

theorem group_out_of_enumeration_order:
  "duplicate_groups (\<lambda>bs. bs) rewritten_world [''d/a'', ''d/b'', ''d/c'', ''d/e'']
     = Inr [[''d/a'', ''d/c'', ''d/b'', ''d/e'']] \<and>
   \<not> subseq [''d/a'', ''d/c'', ''d/b'', ''d/e''] [''d/a'', ''d/b'', ''d/c'', ''d/e'']"
  by (simp add: run_defs rewritten_world_def before_rewrite_def after_rewrite_def)

lemma unchanged_files_same_keys:
  assumes "duplicate_groups H w files = Inr groups" and "g \<in> set groups"
    and "fs_size w = fs_full w" and "fs_partial w = fs_full w" and "inj H"
  shows "\<forall>p \<in> set g. \<forall>q \<in> set g.
        get_file_size (fs_size w) p = get_file_size (fs_size w) q \<and>
        hash_first_1k_bytes H (fs_partial w) p = hash_first_1k_bytes H (fs_partial w) q"
proof (intro ballI)
  fix p q assume "p \<in> set g" and "q \<in> set g"
  have "group_files_by_full_hash H (fs_full w) (partial_survivors H w files) = Inr groups"
    using assms(1) by (rule duplicate_groups_Inr(1))
  from full_hash_group [OF this assms(2)] \<open>p \<in> set g\<close> \<open>q \<in> set g\<close> obtain h where
    "hash_file H (fs_full w) p = Inr h" and "hash_file H (fs_full w) q = Inr h"
    by blast
  then obtain cp cq where c: "open_rb (fs_full w) p = Inr cp" "open_rb (fs_full w) q = Inr cq"
    and "H cp = H cq"
    by (auto dest!: hash_file_Inr)
  with assms(5) have "cp = cq" by (auto dest: injD)
  with c show "get_file_size (fs_size w) p = get_file_size (fs_size w) q \<and>
        hash_first_1k_bytes H (fs_partial w) p = hash_first_1k_bytes H (fs_partial w) q"
    by (simp add: assms(3,4) get_file_size_open hash_first_1k_bytes_open)
qed

text \<open>
  Claim C8, amended. A reported group whose files all had the same size at the size stage
  and the same partial fingerprint at the partial stage lists its files in the order of
  the file list. (By \<open>unchanged_files_same_keys\<close> this is every reported group when the
  files do not change during the run and the digest is injective.)
\<close>

theorem group_keeps_enumeration_order:
  assumes "duplicate_groups H w files = Inr groups" and "g \<in> set groups"
    and "\<forall>p \<in> set g. \<forall>q \<in> set g.
        get_file_size (fs_size w) p = get_file_size (fs_size w) q \<and>
        hash_first_1k_bytes H (fs_partial w) p = hash_first_1k_bytes H (fs_partial w) q"
  shows "subseq g files"
  using assms by (rule group_is_filter)

theorem group_keeps_enumeration_order_witness:
  "duplicate_groups (\<lambda>bs. bs) (static_world empty_and_copies) [''d/c'', ''d/a'', ''d/e'', ''d/b'']
     = Inr [[''d/c'', ''d/e'']] \<and>
   get_file_size (fs_size (static_world empty_and_copies)) ''d/c''
     = get_file_size (fs_size (static_world empty_and_copies)) ''d/e'' \<and>
   hash_first_1k_bytes (\<lambda>bs. bs) (fs_partial (static_world empty_and_copies)) ''d/c''
     = hash_first_1k_bytes (\<lambda>bs. bs) (fs_partial (static_world empty_and_copies)) ''d/e'' \<and>
   subseq [''d/c'', ''d/e''] [''d/c'', ''d/a'', ''d/e'', ''d/b'']"
proof -
  let ?w = "static_world empty_and_copies"
  have r: "duplicate_groups (\<lambda>bs. bs) ?w [''d/c'', ''d/a'', ''d/e'', ''d/b''] = Inr [[''d/c'', ''d/e'']]"
    by (simp add: run_defs empty_and_copies_def)
  have g: "[''d/c'', ''d/e''] \<in> set [[''d/c'', ''d/e'']]" by simp
  have s: "get_file_size (fs_size ?w) ''d/c'' = get_file_size (fs_size ?w) ''d/e''"
    by (simp add: run_defs empty_and_copies_def)
  have h: "hash_first_1k_bytes (\<lambda>bs. bs) (fs_partial ?w) ''d/c''
     = hash_first_1k_bytes (\<lambda>bs. bs) (fs_partial ?w) ''d/e''"
    by (simp add: run_defs empty_and_copies_def)
  have k: "\<forall>p \<in> set [''d/c'', ''d/e'']. \<forall>q \<in> set [''d/c'', ''d/e''].
        get_file_size (fs_size ?w) p = get_file_size (fs_size ?w) q \<and>
        hash_first_1k_bytes (\<lambda>bs. bs) (fs_partial ?w) p = hash_first_1k_bytes (\<lambda>bs. bs) (fs_partial ?w) q"
    using s h by simp
  have "subseq [''d/c'', ''d/e''] [''d/c'', ''d/a'', ''d/e'', ''d/b'']"
    by (rule group_keeps_enumeration_order [OF r g k])
  with r s h show ?thesis by (intro conjI)
qed

end
